theory Spec2Isabelle
  imports Main "HOL-Library.Char_ord" "HOL-Library.List_Lexorder"
begin

section \<open>Python strings and exceptions\<close>

text \<open>
  A Python \<open>str\<close> is modelled as a \<open>string\<close>: every \<open>char\<close> stands for one code point
  below 256. The character classes below are Python's classes restricted to that range.
  Exceptions are values of \<open>error\<close>; a function that can raise returns \<open>error + 'a\<close>.
\<close>

datatype error = ValueError | RuntimeError | AttributeError | SourceError

definition ascii_digit :: "char \<Rightarrow> bool" where
  \<comment> \<open>the regex class \<open>\d\<close>, and the characters \<open>int()\<close> accepts as digits\<close>
  "ascii_digit c = (c \<in> set ''0123456789'')"

definition py_isdigit_char :: "char \<Rightarrow> bool" where
  \<comment> \<open>\<open>str.isdigit\<close> on one character: the ASCII digits and the superscripts 2, 3, 1\<close>
  "py_isdigit_char c = (ascii_digit c \<or> c \<in> set [CHR 0xB2, CHR 0xB3, CHR 0xB9])"

definition py_isspace :: "char \<Rightarrow> bool" where
  \<comment> \<open>\<open>str.isspace\<close> on one character, which is also the regex class \<open>\s\<close>\<close>
  "py_isspace c = (c \<in> set [CHR 0x09, CHR 0x0A, CHR 0x0B, CHR 0x0C, CHR 0x0D,
                            CHR 0x1C, CHR 0x1D, CHR 0x1E, CHR 0x1F, CHR 0x20, CHR 0x85, CHR 0xA0])"

definition isdigit :: "string \<Rightarrow> bool" where
  \<comment> \<open>\<open>s.isdigit()\<close>: non-empty and every character a digit\<close>
  "isdigit s = (s \<noteq> [] \<and> list_all py_isdigit_char s)"

definition strip_chars :: "(char \<Rightarrow> bool) \<Rightarrow> string \<Rightarrow> string" where
  "strip_chars p s = rev (dropWhile p (rev (dropWhile p s)))"

definition strip :: "string \<Rightarrow> string" where
  \<comment> \<open>\<open>s.strip()\<close>\<close>
  "strip s = strip_chars py_isspace s"

definition strip_dot :: "string \<Rightarrow> string" where
  \<comment> \<open>\<open>s.strip('.')\<close>\<close>
  "strip_dot s = strip_chars (\<lambda>c. c = CHR ''.'') s"

fun split_on :: "char \<Rightarrow> string \<Rightarrow> string list" where
  \<comment> \<open>\<open>s.split(c)\<close> for a one-character separator\<close>
  "split_on c [] = [[]]"
| "split_on c (x # xs) =
     (if x = c then [] # split_on c xs
      else (case split_on c xs of [] \<Rightarrow> [[x]] | w # ws \<Rightarrow> (x # w) # ws))"

definition split1 :: "string \<Rightarrow> string list" where
  \<comment> \<open>\<open>s.split(' ', 1)\<close>: cut at the first space, if there is one\<close>
  "split1 s =
     (if CHR '' '' \<in> set s
      then [takeWhile (\<lambda>c. c \<noteq> CHR '' '') s, tl (dropWhile (\<lambda>c. c \<noteq> CHR '' '') s)]
      else [s])"

fun join :: "string \<Rightarrow> string list \<Rightarrow> string" where
  \<comment> \<open>\<open>sep.join(ws)\<close>\<close>
  "join sep [] = []"
| "join sep [w] = w"
| "join sep (w # v # ws) = w @ sep @ join sep (v # ws)"

definition remove_char :: "char \<Rightarrow> string \<Rightarrow> string" where
  \<comment> \<open>\<open>s.replace(c, '')\<close> for a one-character \<open>c\<close>\<close>
  "remove_char c s = filter (\<lambda>x. x \<noteq> c) s"

definition digit_char :: "nat \<Rightarrow> char" where
  "digit_char d = ''0123456789'' ! d"

definition digit_val :: "char \<Rightarrow> nat" where
  "digit_val c = of_char c - 48"

fun str_nat :: "nat \<Rightarrow> string" where
  \<comment> \<open>\<open>str(n)\<close> for a non-negative integer (the interpreter's limit on the number of
      digits of a conversion, 4300 by default, is not modelled)\<close>
  "str_nat n = (if n < 10 then [digit_char n] else str_nat (n div 10) @ [digit_char (n mod 10)])"

declare str_nat.simps [simp del]

definition py_int :: "string \<Rightarrow> error + nat" where
  \<comment> \<open>\<open>int(s)\<close> on the strings that reach it here: runs of digit characters and the
      empty string. The empty string and a superscript digit raise ValueError.\<close>
  "py_int s =
     (if s \<noteq> [] \<and> list_all ascii_digit s
      then Inr (foldl (\<lambda>a c. 10 * a + digit_val c) 0 s)
      else Inl ValueError)"

fun sequence :: "(error + 'a) list \<Rightarrow> error + 'a list" where
  \<comment> \<open>the first exception of a left-to-right evaluation, or all the values\<close>
  "sequence [] = Inr []"
| "sequence (x # xs) =
     (case x of Inl e \<Rightarrow> Inl e
      | Inr v \<Rightarrow> (case sequence xs of Inl e \<Rightarrow> Inl e | Inr vs \<Rightarrow> Inr (v # vs)))"

section \<open>Numbering codec\<close>

definition parse_numbering :: "string \<Rightarrow> error + nat list" where
  \<comment> \<open>\<open>list(map(int, numbering.strip('.').split('.')))\<close>\<close>
  "parse_numbering s = sequence (map py_int (split_on CHR ''.'' (strip_dot s)))"

definition render_numbering :: "nat list \<Rightarrow> string" where
  \<comment> \<open>\<open>'.'.join(map(str, parts)) + '.'\<close>\<close>
  "render_numbering parts = join ''.'' (map str_nat parts) @ ''.''"

definition py_range :: "nat \<Rightarrow> nat \<Rightarrow> nat list" where
  \<comment> \<open>\<open>range(a, b)\<close> on non-negative bounds\<close>
  "py_range a b = [a ..< b]"

definition possibilities :: "nat list \<Rightarrow> string list" where
  \<comment> \<open>the list \<open>possibilities\<close> of \<open>generate_next_numberings\<close>, in append order;
      \<open>parts\<close> is never empty there, \<open>split\<close> returns at least one component\<close>
  "possibilities parts =
     [render_numbering (butlast parts @ [last parts + 1])]
     @ (if length parts < 4
        then concat (map (\<lambda>x.
               render_numbering (parts @ [x])
               # (if length (parts @ [x]) < 4
                  then map (\<lambda>y. render_numbering (parts @ [x] @ [y])) (py_range 1 10)
                  else []))
             (py_range 1 10))
        else [])
     @ concat (map (\<lambda>x.
               render_numbering (butlast parts @ [x])
               # (if length (butlast parts @ [x]) < 4
                  then map (\<lambda>y. render_numbering (butlast parts @ [x] @ [y])) (py_range 1 10)
                  else []))
             (py_range (last parts + 1) (last parts + 10)))
     @ concat (map (\<lambda>i.
               map (\<lambda>x. render_numbering (take (i + 1) parts @ [parts ! (i + 1) + x]))
                 (py_range 1 10))
             (py_range 0 (length parts - 1)))
     @ [render_numbering [hd parts + 1]]"

definition possibility_tokens :: "nat list \<Rightarrow> nat list list" where
  \<comment> \<open>the integer lists that \<open>possibilities\<close> renders, in the same order\<close>
  "possibility_tokens parts =
     [butlast parts @ [last parts + 1]]
     @ (if length parts < 4
        then concat (map (\<lambda>x.
               (parts @ [x])
               # (if length (parts @ [x]) < 4
                  then map (\<lambda>y. parts @ [x] @ [y]) (py_range 1 10)
                  else []))
             (py_range 1 10))
        else [])
     @ concat (map (\<lambda>x.
               (butlast parts @ [x])
               # (if length (butlast parts @ [x]) < 4
                  then map (\<lambda>y. butlast parts @ [x] @ [y]) (py_range 1 10)
                  else []))
             (py_range (last parts + 1) (last parts + 10)))
     @ concat (map (\<lambda>i.
               map (\<lambda>x. take (i + 1) parts @ [parts ! (i + 1) + x]) (py_range 1 10))
             (py_range 0 (length parts - 1)))
     @ [[hd parts + 1]]"

definition generate_next_numberings :: "string \<Rightarrow> error + string list" where
  \<comment> \<open>\<open>sorted(set(possibilities))\<close>, or ValueError when the numbering does not parse\<close>
  "generate_next_numberings current_numbering =
     (case parse_numbering current_numbering of
        Inl e \<Rightarrow> Inl ValueError
      | Inr parts \<Rightarrow> Inr (sort (remdups (possibilities parts))))"

section \<open>Numbering Consistency Repairer\<close>

text \<open>
  A dict is an association list in insertion order. Assigning to a key that is present
  replaces the value and keeps the position; a new key goes to the end.
\<close>

fun dict_set :: "('k \<times> 'v) list \<Rightarrow> 'k \<Rightarrow> 'v \<Rightarrow> ('k \<times> 'v) list" where
  "dict_set [] k v = [(k, v)]"
| "dict_set ((k', v') # d) k v =
     (if k' = k then (k', v) # d else (k', v') # dict_set d k v)"

definition dict_get :: "('k \<times> 'v) list \<Rightarrow> 'k \<Rightarrow> 'v option" where
  "dict_get d k = map_of d k"

definition extract_numbering :: "string \<Rightarrow> string" where
  \<comment> \<open>the entry of \<open>numberings\<close> for one key: \<open>parts[0]\<close> when it is digits and dots,
      the empty string otherwise\<close>
  "extract_numbering key =
     (let parts = split1 key
      in if isdigit (remove_char CHR ''.'' (parts ! 0)) then parts ! 0 else [])"

definition blank_indexes :: "string list \<Rightarrow> nat list" where
  "blank_indexes keys =
     filter (\<lambda>idx. \<not> isdigit (remove_char CHR ''.'' (split1 (keys ! idx) ! 0))) [0 ..< length keys]"

function inner_scan ::
  "string list \<Rightarrow> string \<Rightarrow> nat \<Rightarrow> nat list \<Rightarrow> error + (nat option \<times> nat list)" where
  \<comment> \<open>the inner \<open>while j < len(numberings)\<close>: the position of the first logical successor
      of \<open>current_numbering\<close>, if any, and the flagged positions so far\<close>
  "inner_scan numberings current_numbering j non_logical =
     (if j < length numberings then
        (if numberings ! j = [] then inner_scan numberings current_numbering (j + 1) non_logical
         else (case generate_next_numberings current_numbering of
                 Inl e \<Rightarrow> Inl e
               | Inr generated \<Rightarrow>
                   if numberings ! j \<notin> set generated
                   then inner_scan numberings current_numbering (j + 1) (non_logical @ [j])
                   else Inr (Some j, non_logical)))
      else Inr (None, non_logical))"
  by pat_completeness auto
termination
  by (relation "measure (\<lambda>(numberings, c, j, n). length numberings - j)") auto

declare inner_scan.simps [simp del]

function outer_scan :: "string list \<Rightarrow> nat \<Rightarrow> nat list \<Rightarrow> error + nat list" where
  \<comment> \<open>the outer \<open>while i < len(numberings) - 1\<close>; after a logical successor at \<open>j\<close> the
      source sets \<open>i = j - 1\<close> and then \<open>i += 1\<close>\<close>
  "outer_scan numberings i non_logical =
     (if i + 1 < length numberings then
        (if numberings ! i = [] then outer_scan numberings (i + 1) non_logical
         else (case inner_scan numberings (numberings ! i) (i + 1) non_logical of
                 Inl e \<Rightarrow> Inl e
               | Inr (None, non_logical') \<Rightarrow> Inr non_logical'
               | Inr (Some j, non_logical') \<Rightarrow> outer_scan numberings (j - 1 + 1) non_logical'))
      else Inr non_logical)"
  by pat_completeness auto
termination
proof -
  have ge: "s \<le> k \<and> k < length ns"
    if "inner_scan ns c s acc = Inr (Some k, acc')" for ns c s acc k acc'
    using that
  proof (induction ns c s acc rule: inner_scan.induct)
    case (1 ns c j acc)
    show ?case
    proof (cases "j < length ns")
      case False
      with 1(3) show ?thesis by (simp add: inner_scan.simps [of ns c j acc])
    next
      case True
      note j = True
      show ?thesis
      proof (cases "ns ! j = []")
        case True
        with j 1(3) have "inner_scan ns c (j + 1) acc = Inr (Some k, acc')"
          by (simp add: inner_scan.simps [of ns c j acc])
        with 1(1) [OF j True] show ?thesis by simp
      next
        case False
        note nb = False
        show ?thesis
        proof (cases "generate_next_numberings c")
          case (Inl e)
          with j nb 1(3) show ?thesis by (simp add: inner_scan.simps [of ns c j acc])
        next
          case (Inr g)
          show ?thesis
          proof (cases "ns ! j \<in> set g")
            case True
            with j nb Inr 1(3) show ?thesis by (simp add: inner_scan.simps [of ns c j acc])
          next
            case False
            with j nb Inr 1(3) have "inner_scan ns c (j + 1) (acc @ [j]) = Inr (Some k, acc')"
              by (simp add: inner_scan.simps [of ns c j acc])
            with 1(2) [OF j nb Inr False] show ?thesis by simp
          qed
        qed
      qed
    qed
  qed
  show ?thesis
    by (relation "measure (\<lambda>(numberings, i, n). length numberings - i)")
       (auto dest!: ge)
qed

declare outer_scan.simps [simp del]

definition prev_valid :: "string list \<Rightarrow> nat \<Rightarrow> string option" where
  \<comment> \<open>\<open>for i in range(idx - 1, -1, -1)\<close>: the nearest non-blank numbering before \<open>idx\<close>\<close>
  "prev_valid rs idx = find (\<lambda>s. s \<noteq> []) (rev (take idx rs))"

definition next_valid :: "string list \<Rightarrow> nat \<Rightarrow> string option" where
  \<comment> \<open>\<open>for i in range(idx + 1, len(...))\<close>: the nearest non-blank numbering after \<open>idx\<close>\<close>
  "next_valid rs idx = find (\<lambda>s. s \<noteq> []) (drop (idx + 1) rs)"

definition truthy :: "string option \<Rightarrow> bool" where
  \<comment> \<open>Python truth of a value that is \<open>None\<close> or a string\<close>
  "truthy v = (case v of None \<Rightarrow> False | Some s \<Rightarrow> s \<noteq> [])"

definition reconstruct_at :: "string list \<Rightarrow> nat \<Rightarrow> error + string list" where
  \<comment> \<open>one round of \<open>for idx in non_logical_indexes\<close>\<close>
  "reconstruct_at rs idx =
     (if truthy (prev_valid rs idx) \<and> truthy (next_valid rs idx) then
        (case parse_numbering (the (prev_valid rs idx)) of
           Inl e \<Rightarrow> Inl e
         | Inr prev_parts \<Rightarrow>
             (case parse_numbering (the (next_valid rs idx)) of
                Inl e \<Rightarrow> Inl e
              | Inr next_parts \<Rightarrow>
                  if length prev_parts = 1 \<and> next_parts ! 0 = prev_parts ! 0 then
                    Inr (rs[idx := render_numbering
                          (if length prev_parts < 4 then prev_parts @ [1]
                           else butlast prev_parts @ [last prev_parts + 1])])
                  else if length prev_parts = length next_parts
                          \<and> butlast prev_parts = butlast next_parts then
                    Inr (rs[idx := render_numbering (butlast prev_parts @ [last prev_parts + 1])])
                  else
                    Inr (rs[idx := render_numbering (butlast prev_parts @ [last prev_parts + 1])])))
      else Inr rs)"

fun reconstruct :: "nat list \<Rightarrow> string list \<Rightarrow> error + string list" where
  "reconstruct [] rs = Inr rs"
| "reconstruct (idx # idxs) rs =
     (case reconstruct_at rs idx of Inl e \<Rightarrow> Inl e | Inr rs' \<Rightarrow> reconstruct idxs rs')"

definition non_logical_indexes :: "string list \<Rightarrow> error + nat list" where
  \<comment> \<open>the flagged positions, after \<open>sorted(set(non_logical_indexes))\<close>\<close>
  "non_logical_indexes numberings =
     (case outer_scan numberings 0 [] of Inl e \<Rightarrow> Inl e | Inr bad \<Rightarrow> Inr (sort (remdups bad)))"

definition reconstructed_numberings :: "string list \<Rightarrow> error + string list" where
  "reconstructed_numberings numberings =
     (case non_logical_indexes numberings of
        Inl e \<Rightarrow> Inl e
      | Inr idxs \<Rightarrow> reconstruct idxs numberings)"

definition new_key :: "nat list \<Rightarrow> string list \<Rightarrow> nat \<Rightarrow> string \<Rightarrow> string" where
  \<comment> \<open>the key written for position \<open>idx\<close> by the last loop\<close>
  "new_key blank rs idx key =
     (if idx \<in> set blank then key
      else (let parts = split1 key; new_numbering = rs ! idx
            in if length parts > 1 then new_numbering @ '' '' @ parts ! 1 else new_numbering))"

definition new_keys :: "string list \<Rightarrow> string list \<Rightarrow> string list" where
  "new_keys keys rs = map (\<lambda>idx. new_key (blank_indexes keys) rs idx (keys ! idx)) [0 ..< length keys]"

definition find_and_replace_numberings :: "(string \<times> 'v) list \<Rightarrow> error + (string \<times> 'v) list" where
  "find_and_replace_numberings data =
     (let keys = map fst data; numberings = map extract_numbering keys
      in case reconstructed_numberings numberings of
           Inl e \<Rightarrow> Inl e
         | Inr rs \<Rightarrow>
             Inr (fold (\<lambda>(k, v) updated_dict. dict_set updated_dict k v)
                    (zip (new_keys keys rs) (map snd data)) []))"

section \<open>String search, slices and the fixed regular expressions\<close>

definition startswith :: "string \<Rightarrow> string \<Rightarrow> bool" where
  \<comment> \<open>\<open>s.startswith(p)\<close>\<close>
  "startswith s p = (take (length p) s = p)"

definition py_find :: "string \<Rightarrow> string \<Rightarrow> int \<Rightarrow> int" where
  \<comment> \<open>\<open>text.find(sub, start)\<close>: the lowest index at or after \<open>start\<close> where \<open>sub\<close> occurs,
      or -1. A negative \<open>start\<close> counts from the end and is clamped to 0.\<close>
  "py_find text sub start =
     (let st = (if start < 0 then max 0 (int (length text) + start) else start)
      in case find (\<lambda>i. take (length sub) (drop i text) = sub)
                [nat st ..< Suc (length text) - length sub] of
           None \<Rightarrow> - 1
         | Some i \<Rightarrow> int i)"

definition py_index :: "string \<Rightarrow> int \<Rightarrow> nat" where
  \<comment> \<open>a slice bound as a position: negative bounds count from the end, all are clamped\<close>
  "py_index text i =
     (if i < 0 then nat (max 0 (int (length text) + i)) else min (nat i) (length text))"

definition py_slice :: "string \<Rightarrow> int \<Rightarrow> int \<Rightarrow> string" where
  \<comment> \<open>\<open>text[a:b]\<close>\<close>
  "py_slice text a b = drop (py_index text a) (take (py_index text b) text)"

definition py_slice_from :: "string \<Rightarrow> int \<Rightarrow> string" where
  \<comment> \<open>\<open>text[a:]\<close>\<close>
  "py_slice_from text a = drop (py_index text a) text"

definition newline :: char where
  "newline = CHR 0x0A"

definition digits_dot :: "string \<Rightarrow> string option" where
  \<comment> \<open>what is left after a leading \<open>\d+\.\<close>, if the string starts with one\<close>
  "digits_dot s =
     (case dropWhile ascii_digit s of
        [] \<Rightarrow> None
      | c # rest \<Rightarrow> if takeWhile ascii_digit s \<noteq> [] \<and> c = CHR ''.'' then Some rest else None)"

fun digits_dot_times :: "nat \<Rightarrow> string \<Rightarrow> string option" where
  \<comment> \<open>what is left after a leading \<open>(\d+\.){n}\<close>\<close>
  "digits_dot_times 0 s = Some s"
| "digits_dot_times (Suc n) s =
     (case digits_dot s of None \<Rightarrow> None | Some rest \<Rightarrow> digits_dot_times n rest)"

definition any_char_follows :: "string \<Rightarrow> bool" where
  \<comment> \<open>the tail \<open>.+\<close> of a match: one character that is not a newline\<close>
  "any_char_follows s = (case s of [] \<Rightarrow> False | c # _ \<Rightarrow> c \<noteq> newline)"

definition spaces_then_char :: "nat \<Rightarrow> string \<Rightarrow> bool" where
  \<comment> \<open>the tails \<open>\s+.+\<close> (\<open>least = 1\<close>) and \<open>\s*.+\<close> (\<open>least = 0\<close>): some \<open>k \<ge> least\<close>
      whitespace characters, then a character that is not a newline\<close>
  "spaces_then_char least s =
     list_ex (\<lambda>k. list_all py_isspace (take k s) \<and> s ! k \<noteq> newline) [least ..< length s]"

definition matches_depth3_spaced :: "string \<Rightarrow> bool" where
  \<comment> \<open>\<open>re.match(r"^\d+\.\d+\.\d+\.\s+.+", s)\<close>\<close>
  "matches_depth3_spaced s =
     (case digits_dot_times 3 s of None \<Rightarrow> False | Some rest \<Rightarrow> spaces_then_char 1 rest)"

definition matches_depth :: "nat \<Rightarrow> string \<Rightarrow> bool" where
  \<comment> \<open>\<open>re.match(r"^(\d+\.){n}.+", s)\<close>, written out in the source for n = 1, 2, 3\<close>
  "matches_depth n s =
     (case digits_dot_times n s of None \<Rightarrow> False | Some rest \<Rightarrow> any_char_follows rest)"

definition matches_numbered_title :: "string \<Rightarrow> bool" where
  \<comment> \<open>\<open>re.match(r"^\d+\.\s*.+", s)\<close>\<close>
  "matches_numbered_title s =
     (case digits_dot s of None \<Rightarrow> False | Some rest \<Rightarrow> spaces_then_char 0 rest)"

definition strip_leading_numbering :: "string \<Rightarrow> string" where
  \<comment> \<open>\<open>re.sub(r"^\d+\.\s*", "", s)\<close>\<close>
  "strip_leading_numbering s =
     (case digits_dot s of None \<Rightarrow> s | Some rest \<Rightarrow> dropWhile py_isspace rest)"

definition group_run :: "string \<Rightarrow> nat" where
  \<comment> \<open>the length of the match of \<open>(\d+\.){2,3}\<close> at the start of the string (three groups
      when there are three, else two), or 0 when there is none\<close>
  "group_run s =
     (case digits_dot_times 3 s of
        Some rest \<Rightarrow> length s - length rest
      | None \<Rightarrow> (case digits_dot_times 2 s of
                    Some rest \<Rightarrow> length s - length rest
                  | None \<Rightarrow> 0))"

fun space_after_groups :: "nat \<Rightarrow> string \<Rightarrow> string" where
  \<comment> \<open>\<open>re.sub(r"((\d+\.){2,3})", r"\1 ", s)\<close>: a space after every match, found left to
      right. The first argument counts the characters of the current match still to copy.\<close>
  "space_after_groups n [] = []"
| "space_after_groups 0 (c # cs) =
     (case group_run (c # cs) of
        0 \<Rightarrow> c # space_after_groups 0 cs
      | Suc m \<Rightarrow> c # (if m = 0 then '' '' else []) @ space_after_groups m cs)"
| "space_after_groups (Suc m) (c # cs) =
     c # (if m = 0 then '' '' else []) @ space_after_groups m cs"

definition dot_or_space :: "char \<Rightarrow> bool" where
  \<comment> \<open>the class \<open>[\.\s]\<close>\<close>
  "dot_or_space c = (c = CHR ''.'' \<or> py_isspace c)"

function remove_numbering_runs :: "string \<Rightarrow> string" where
  \<comment> \<open>\<open>re.sub(r"\d+[\.\s]*", "", s)\<close>\<close>
  "remove_numbering_runs [] = []"
| "remove_numbering_runs (c # cs) =
     (if ascii_digit c
      then remove_numbering_runs (dropWhile dot_or_space (dropWhile ascii_digit cs))
      else c # remove_numbering_runs cs)"
  by pat_completeness auto
termination
proof (relation "measure length")
  show "wf (measure (length :: string \<Rightarrow> nat))" by simp
next
  fix c :: char and cs :: string
  have "length (dropWhile dot_or_space (dropWhile ascii_digit cs)) \<le> length cs"
    using length_dropWhile_le [of dot_or_space "dropWhile ascii_digit cs"]
      length_dropWhile_le [of ascii_digit cs] by linarith
  then show "(dropWhile dot_or_space (dropWhile ascii_digit cs), c # cs) \<in> measure length"
    by simp
next
  fix c :: char and cs :: string
  show "(cs, c # cs) \<in> measure length" by simp
qed

function dot_groups :: "string \<Rightarrow> string list" where
  \<comment> \<open>the groups taken by a greedy \<open>(\.\d+)*\<close> at the start of the string\<close>
  "dot_groups [] = []"
| "dot_groups (c # cs) =
     (if c = CHR ''.'' \<and> takeWhile ascii_digit cs \<noteq> []
      then (c # takeWhile ascii_digit cs) # dot_groups (dropWhile ascii_digit cs)
      else [])"
  by pat_completeness auto
termination
proof (relation "measure length")
  show "wf (measure (length :: string \<Rightarrow> nat))" by simp
next
  fix c :: char and cs :: string
  have "length (dropWhile ascii_digit cs) \<le> length cs" by (rule length_dropWhile_le)
  then show "(dropWhile ascii_digit cs, c # cs) \<in> measure length" by simp
qed

definition numbering_prefix :: "string \<Rightarrow> string option" where
  \<comment> \<open>\<open>re.match(r"^(\d+(\.\d+)*\.)", s)\<close> and its \<open>group(0)\<close>: the star is greedy and gives
      back its last group when no dot follows\<close>
  "numbering_prefix s =
     (let d = takeWhile ascii_digit s; gs = dot_groups (dropWhile ascii_digit s);
          rest = drop (length (concat gs)) (dropWhile ascii_digit s)
      in if d = [] then None
         else if startswith rest ''.'' then Some (d @ concat gs @ ''.'')
         else if gs \<noteq> [] then Some (d @ concat (butlast gs) @ ''.'')
         else None)"

section \<open>Boundary Refiner\<close>

definition dict_get_default :: "('k \<times> 'v) list \<Rightarrow> 'k \<Rightarrow> 'v \<Rightarrow> 'v" where
  \<comment> \<open>\<open>d.get(k, default)\<close>\<close>
  "dict_get_default d k dflt = (case map_of d k of None \<Rightarrow> dflt | Some v \<Rightarrow> v)"

definition modified_title :: "string \<Rightarrow> string" where
  \<comment> \<open>the search key of a title: the \<open>if / elif / elif / else\<close> chain of the source\<close>
  "modified_title title =
     (if matches_depth3_spaced title then title
      else if matches_depth 2 title \<or> matches_depth 3 title
        then strip (space_after_groups 0 title)
      else if matches_depth 1 title then strip_leading_numbering title
      else title)"

definition section_start :: "string \<Rightarrow> string \<Rightarrow> int" where
  \<comment> \<open>\<open>start_index\<close> when a next title exists: the search key, then the raw title, then the
      title without its numbering\<close>
  "section_start current_text title =
     (let start_index = py_find current_text (modified_title title) 0;
          start_index = (if start_index = - 1 then py_find current_text title 0 else start_index);
          start_index = (if start_index = - 1 \<and> matches_numbered_title title
                         then py_find current_text (strip_leading_numbering title) 0
                         else start_index)
      in start_index)"

definition section_end :: "string \<Rightarrow> string \<Rightarrow> string \<Rightarrow> int \<Rightarrow> int" where
  \<comment> \<open>\<open>end_index\<close>: the next title's search key, then the raw next title, both searched from
      \<open>start_index + len(modified_title)\<close>\<close>
  "section_end current_text title next_title start_index =
     (let from = start_index + int (length (modified_title title));
          end_index = py_find current_text (modified_title next_title) from
      in if end_index = - 1 then py_find current_text next_title from else end_index)"

definition section_text :: "string list \<Rightarrow> (string \<times> string) list \<Rightarrow> nat \<Rightarrow> string" where
  \<comment> \<open>the value stored for \<open>titles[i]\<close> by one round of the loop\<close>
  "section_text titles processed_text i =
     (let title = titles ! i; current_text = dict_get_default processed_text title []
      in if current_text = [] then []
         else if i + 1 < length titles then
           (let start_index = section_start current_text title;
                end_index = section_end current_text title (titles ! (i + 1)) start_index
            in if start_index \<noteq> - 1 then strip (py_slice current_text start_index end_index)
               else current_text)
         else
           (let start_index = py_find current_text (modified_title title) 0
            in if start_index \<noteq> - 1 then strip (py_slice_from current_text start_index)
               else current_text))"

definition extract_sections_from_processed_text ::
  "string list \<Rightarrow> (string \<times> string) list \<Rightarrow> (string \<times> string) list" where
  "extract_sections_from_processed_text titles processed_text =
     fold (\<lambda>i sectioned_text. dict_set sectioned_text (titles ! i) (section_text titles processed_text i))
       [0 ..< length titles] []"

definition cut_title :: "string \<Rightarrow> string \<Rightarrow> string" where
  \<comment> \<open>step 1 of \<open>refine_extracted_sections\<close>: a leading copy of the title is cut off\<close>
  "cut_title title text =
     (if startswith text title then strip (drop (length title) text) else text)"

definition refine_text :: "string \<Rightarrow> string \<Rightarrow> string" where
  \<comment> \<open>the body of the loop of \<open>refine_extracted_sections\<close> for one item\<close>
  "refine_text title text0 =
     (let text = cut_title title text0;
          stripped_title = strip (remove_numbering_runs title);
          stripped_text = strip (remove_numbering_runs text);
          text = (if length stripped_text \<le> 50 then [] else text)
      in case numbering_prefix title of
           None \<Rightarrow> text
         | Some numbering \<Rightarrow>
             (let expected_start = numbering @ '' '' @ stripped_title
              in if startswith text expected_start
                 then strip (drop (length expected_start) text)
                 else text))"

definition refine_extracted_sections :: "(string \<times> string) list \<Rightarrow> (string \<times> string) list" where
  "refine_extracted_sections extracted_sections =
     fold (\<lambda>(title, text) refined_sections. dict_set refined_sections title (refine_text title text))
       extracted_sections []"

section \<open>Title Variation Generator\<close>

fun split_words :: "string \<Rightarrow> string \<Rightarrow> string list" where
  \<comment> \<open>\<open>s.split()\<close> with the word being read as first argument\<close>
  "split_words cur [] = (if cur = [] then [] else [cur])"
| "split_words cur (c # cs) =
     (if py_isspace c
      then (if cur = [] then split_words [] cs else cur # split_words [] cs)
      else split_words (cur @ [c]) cs)"

definition py_split :: "string \<Rightarrow> string list" where
  \<comment> \<open>\<open>s.split()\<close>: the maximal runs of characters that are not whitespace\<close>
  "py_split s = split_words [] s"

fun product_bools :: "nat \<Rightarrow> bool list list" where
  \<comment> \<open>\<open>product([True, False], repeat=n)\<close> for \<open>n \<ge> 0\<close>, in the order of itertools\<close>
  "product_bools 0 = [[]]"
| "product_bools (Suc n) = concat (map (\<lambda>b. map ((#) b) (product_bools n)) [True, False])"

definition new_title :: "string list \<Rightarrow> bool list \<Rightarrow> string" where
  \<comment> \<open>the inner loop: \<open>new_title = words[0]\<close>, then each next word after a space or no space\<close>
  "new_title words space_combination =
     fold (\<lambda>(i, keep_space) new_title.
             new_title @ (if keep_space then '' '' else []) @ words ! (i + 1))
       (enumerate 0 space_combination) (words ! 0)"

definition spacing_variations :: "string list \<Rightarrow> string list" where
  \<comment> \<open>the first loop, appending one variation for each combination\<close>
  "spacing_variations words =
     fold (\<lambda>space_combination variations. variations @ [new_title words space_combination])
       (product_bools (length words - 1)) []"

definition bslash :: char where
  "bslash = CHR 0x5C"

definition numbering_regex :: "nat \<Rightarrow> string" where
  \<comment> \<open>\<open>'.'.join(['\\d+'] * numbering_depth)\<close>\<close>
  "numbering_regex numbering_depth = join ''.'' (replicate numbering_depth (bslash # ''d+''))"

definition re_escape :: "string \<Rightarrow> string" where
  \<comment> \<open>\<open>re.escape\<close> (Python 3.7 and later): a backslash before each special character\<close>
  "re_escape s =
     concat (map (\<lambda>c. if c \<in> set (''()[]{}?*+-|^$'' @ [bslash] @ ''.&~# ''
                                    @ [CHR 0x09, CHR 0x0A, CHR 0x0D, CHR 0x0B, CHR 0x0C])
                        then [bslash, c] else [c]) s)"

definition numbered_variations :: "string list \<Rightarrow> string list" where
  \<comment> \<open>the second loop: it runs over a copy of \<open>variations\<close> and appends to \<open>variations\<close>\<close>
  "numbered_variations variations =
     fold (\<lambda>variation vs.
             fold (\<lambda>numbering_depth vs.
                     vs @ [numbering_regex numbering_depth @ (bslash # ''s*'') @ re_escape variation])
               (py_range 1 5) vs)
       variations variations"

definition generate_title_variations :: "string \<Rightarrow> error + string list" where
  \<comment> \<open>a title without a word makes \<open>product\<close> raise (\<open>repeat=-1\<close>), re-raised as RuntimeError\<close>
  "generate_title_variations title =
     (let words = py_split title
      in if words = [] then Inl RuntimeError
         else Inr (numbered_variations (spacing_variations words)))"

section \<open>Document source, cleanup configuration and text cleanup\<close>

text \<open>
  The document library and the regular expressions of the configuration are outside the
  repository: a document is its page count and the function that loads a page and returns
  its text (or raises), and \<open>re.sub(expr, "", text)\<close> for a configured expression is the
  parameter \<open>re_delete\<close>, which may raise as well.
\<close>

record document =
  page_count :: int
  get_text :: "int \<Rightarrow> error + string"

record cleanup_config =
  special_characters :: "string list"
  expressions :: "string list"
  texts_to_remove :: "string list"

record toc_entry =
  toc_level :: int
  toc_title :: string
  toc_page :: int

function remove_all :: "string \<Rightarrow> string \<Rightarrow> string" where
  \<comment> \<open>\<open>text.replace(old, "")\<close>\<close>
  "remove_all old [] = []"
| "remove_all old (c # cs) =
     (if old \<noteq> [] \<and> startswith (c # cs) old
      then remove_all old (drop (length old) (c # cs))
      else c # remove_all old cs)"
  by pat_completeness auto
termination
  by (relation "measure (\<lambda>(old, text). length text)") (auto simp: startswith_def)

function collapse_whitespace :: "string \<Rightarrow> string" where
  \<comment> \<open>\<open>re.sub(r"\s+", " ", text)\<close>\<close>
  "collapse_whitespace [] = []"
| "collapse_whitespace (c # cs) =
     (if py_isspace c then CHR '' '' # collapse_whitespace (dropWhile py_isspace cs)
      else c # collapse_whitespace cs)"
  by pat_completeness auto
termination
proof (relation "measure length")
  show "wf (measure (length :: string \<Rightarrow> nat))" by simp
next
  fix c :: char and cs :: string
  have "length (dropWhile py_isspace cs) \<le> length cs" by (rule length_dropWhile_le)
  then show "(dropWhile py_isspace cs, c # cs) \<in> measure length" by simp
next
  fix c :: char and cs :: string
  show "(cs, c # cs) \<in> measure length" by simp
qed

fun delete_expressions ::
  "(string \<Rightarrow> string \<Rightarrow> error + string) \<Rightarrow> string list \<Rightarrow> string \<Rightarrow> error + string" where
  \<comment> \<open>\<open>for expr in expressions: text = re.sub(expr, "", text)\<close>\<close>
  "delete_expressions re_delete [] text = Inr text"
| "delete_expressions re_delete (expr # exprs) text =
     (case re_delete expr text of
        Inl e \<Rightarrow> Inl e
      | Inr text' \<Rightarrow> delete_expressions re_delete exprs text')"

definition clean_text ::
  "(string \<Rightarrow> string \<Rightarrow> error + string) \<Rightarrow> cleanup_config \<Rightarrow> string \<Rightarrow> error + string" where
  \<comment> \<open>any exception is re-raised as RuntimeError\<close>
  "clean_text re_delete config text =
     (case delete_expressions re_delete (expressions config)
             (fold remove_all (special_characters config) text) of
        Inl e \<Rightarrow> Inl RuntimeError
      | Inr text' \<Rightarrow> Inr (strip (collapse_whitespace text')))"

section \<open>Section Segmenter, no-numbering mode\<close>

definition numbering_chain :: "string \<Rightarrow> bool" where
  \<comment> \<open>the whole string matches \<open>\d+(\.\d+)*\.\<close>\<close>
  "numbering_chain s = (numbering_prefix s = Some s)"

definition trailing_number_match :: "string \<Rightarrow> string option" where
  \<comment> \<open>\<open>re.compile(r"(.*?)(\d+(\.\d+)*\.)$").match(title)\<close> and its \<open>group(1)\<close>: the shortest
      prefix without a newline that leaves a numbering chain up to the end of the title, or up
      to a newline that ends it\<close>
  "trailing_number_match t =
     (case find (\<lambda>k. newline \<notin> set (take k t)
                    \<and> (numbering_chain (drop k t)
                       \<or> (drop k t \<noteq> [] \<and> last (drop k t) = newline
                          \<and> numbering_chain (butlast (drop k t)))))
             [0 ..< Suc (length t)] of
        None \<Rightarrow> None
      | Some k \<Rightarrow> Some (take k t))"

definition entry_title :: "toc_entry list \<Rightarrow> nat \<Rightarrow> string" where
  \<comment> \<open>the title of entry \<open>i\<close> without a trailing number chain\<close>
  "entry_title toc i =
     (case trailing_number_match (toc_title (toc ! i)) of
        None \<Rightarrow> toc_title (toc ! i)
      | Some g \<Rightarrow> strip g)"

definition entry_pages :: "document \<Rightarrow> toc_entry list \<Rightarrow> nat \<Rightarrow> int list" where
  \<comment> \<open>\<open>range(start_page, end_page + 1)\<close>\<close>
  "entry_pages doc toc i =
     (let start_page = toc_page (toc ! i) - 1;
          end_page = (if i + 1 < length toc then toc_page (toc ! (i + 1)) - 1
                      else page_count doc - 1)
      in [start_page .. end_page])"

definition find_title :: "string \<Rightarrow> string \<Rightarrow> nat option" where
  \<comment> \<open>\<open>for k in range(len(page_text)): if page_text[k:].startswith(title): ... break\<close>\<close>
  "find_title page_text t = find (\<lambda>k. startswith (drop k page_text) t) [0 ..< length page_text]"

fun scan_pages ::
  "(string \<Rightarrow> string \<Rightarrow> error + string) \<Rightarrow> cleanup_config \<Rightarrow> document \<Rightarrow> string
     \<Rightarrow> string option \<Rightarrow> int list \<Rightarrow> string \<Rightarrow> bool \<Rightarrow> error + string" where
  \<comment> \<open>the loop over the pages of one entry, with \<open>section_text\<close> (here \<open>section_txt\<close>) and \<open>start_found\<close> as
      state; \<open>next_title\<close> is \<open>None\<close> for the last entry\<close>
  "scan_pages re_delete config doc t next_title [] section_txt start_found = Inr section_txt"
| "scan_pages re_delete config doc t next_title (page_num # rest) section_txt start_found =
     (case get_text doc page_num of
        Inl e \<Rightarrow> Inl e
      | Inr raw \<Rightarrow>
          (case clean_text re_delete config raw of
             Inl e \<Rightarrow> Inl e
           | Inr page_text \<Rightarrow>
               if \<not> start_found then
                 (case find_title page_text t of
                    Some start_position \<Rightarrow>
                      scan_pages re_delete config doc t next_title rest
                        (section_txt @ drop start_position page_text @ [newline]) True
                  | None \<Rightarrow>
                      scan_pages re_delete config doc t next_title rest section_txt False)
               else
                 (case next_title of
                    Some nt \<Rightarrow>
                      (case find_title page_text nt of
                         Some end_position \<Rightarrow> Inr (section_txt @ take end_position page_text)
                       | None \<Rightarrow>
                           scan_pages re_delete config doc t next_title rest
                             (section_txt @ page_text @ [newline]) True)
                  | None \<Rightarrow>
                      scan_pages re_delete config doc t next_title rest
                        (section_txt @ page_text @ [newline]) True)))"

definition section_entry ::
  "(string \<Rightarrow> string \<Rightarrow> error + string) \<Rightarrow> cleanup_config \<Rightarrow> document \<Rightarrow> toc_entry list
     \<Rightarrow> nat \<Rightarrow> error + (string \<times> string)" where
  \<comment> \<open>one round of \<open>for i, toc_entry in enumerate(toc)\<close>: the key and the value stored\<close>
  "section_entry re_delete config doc toc i =
     (let t = entry_title toc i;
          next_title = (if i + 1 < length toc then Some (toc_title (toc ! (i + 1))) else None)
      in case scan_pages re_delete config doc t next_title (entry_pages doc toc i) [] False of
           Inl e \<Rightarrow> Inl e
         | Inr section_txt \<Rightarrow>
             (case clean_text re_delete config
                     (fold (\<lambda>text_to_remove text. strip (remove_all text_to_remove text))
                        (texts_to_remove config) section_txt) of
                Inl e \<Rightarrow> Inl e
              | Inr body \<Rightarrow> Inr (t, body)))"

definition structure_raw_text_by_toc_no_numbering ::
  "(string \<Rightarrow> string \<Rightarrow> error + string) \<Rightarrow> cleanup_config \<Rightarrow> document \<Rightarrow> toc_entry list
     \<Rightarrow> error + (string \<times> string) list" where
  \<comment> \<open>the first exception of any round leaves the function as RuntimeError\<close>
  "structure_raw_text_by_toc_no_numbering re_delete config doc toc =
     (case sequence (map (section_entry re_delete config doc toc) [0 ..< length toc]) of
        Inl e \<Rightarrow> Inl RuntimeError
      | Inr entries \<Rightarrow>
          Inr (fold (\<lambda>(t, body) sections. dict_set sections t body) entries []))"

text \<open>A document of one page whose text does not hold the title \<open>Intro\<close>.\<close>

definition no_match_delete :: "string \<Rightarrow> string \<Rightarrow> error + string" where
  \<comment> \<open>\<open>re.sub(expr, "", text)\<close> when the expression matches nowhere\<close>
  "no_match_delete expr text = Inr text"



definition empty_config :: cleanup_config where
  "empty_config = \<lparr>special_characters = [], expressions = [], texts_to_remove = []\<rparr>"

definition intro_toc :: "toc_entry list" where
  "intro_toc = [\<lparr>toc_level = 1, toc_title = ''Intro'', toc_page = 1\<rparr>]"

text \<open>A TOC with the title \<open>Intro\<close> twice, both entries on page 1 of a document of two pages;
  the title is on the second page only.\<close>

definition two_page_text :: "int \<Rightarrow> error + string" where
  "two_page_text page_num =
     (if page_num = 0 then Inr ''nothing here''
      else if page_num = 1 then Inr ''Intro body''
      else Inl SourceError)"

definition two_page_document :: document where
  "two_page_document = \<lparr>page_count = 2, get_text = two_page_text\<rparr>"

definition duplicate_toc :: "toc_entry list" where
  "duplicate_toc =
     [\<lparr>toc_level = 1, toc_title = ''Intro'', toc_page = 1\<rparr>,
      \<lparr>toc_level = 1, toc_title = ''Intro'', toc_page = 1\<rparr>]"

section \<open>Pipeline Orchestrator\<close>

text \<open>
  \<open>extract_all\<close> calls the stages as methods of the extractor. Here every stage is a field
  of \<open>stages\<close>: what it returns or the exception it raises, as a function of the value it
  is given. \<open>no_numbering_flag\<close> is the attribute that \<open>extract_toc\<close> sets; it is \<open>None\<close> when
  \<open>extract_toc\<close> raised before setting it, and reading it then raises AttributeError.
  The exceptions of Step 1 (\<open>extract_toc\<close>) and of Step 8 (\<open>save_json\<close>) are caught and
  logged, and nothing else depends on them.
\<close>

datatype section_tree = Leaf string | Node "(string \<times> section_tree) list"

type_synonym flat_sections = "(string \<times> string) list"
type_synonym leveled = "(string \<times> section_tree) list"

datatype field_value =
  Mapping "(string \<times> string) list" | Tree "(string \<times> section_tree) list" | Text string

record stages =
  extract_toc :: "error + unit"
  no_numbering_flag :: "bool option"
  structure_no_numbering :: "error + flat_sections"
  structure_by_toc :: "error + flat_sections"
  extract_sections :: "flat_sections \<Rightarrow> error + flat_sections"
  process_titles :: "flat_sections \<Rightarrow> error + flat_sections"
  refine_sections :: "flat_sections \<Rightarrow> error + flat_sections"
  normalize_keys :: "flat_sections \<Rightarrow> error + flat_sections"
  replace_numberings :: "flat_sections \<Rightarrow> error + flat_sections"
  remove_title_from_text :: "flat_sections \<Rightarrow> error + flat_sections"
  process_titles_in_one_step :: "flat_sections \<Rightarrow> error + flat_sections"
  organize_by_levels :: "flat_sections \<Rightarrow> error + leveled"
  restructure_levels :: "leveled \<Rightarrow> error + leveled"
  resolve_and_filter :: "leveled \<Rightarrow> error + leveled"
  extract_metadata :: "error + (string \<times> string) list"
  extract_pdf_text_and_clean :: "error + string"
  save_json :: "(string \<times> field_value) list \<Rightarrow> error + unit"

record pipeline_data =
  data_metadata :: "(string \<times> string) list"
  data_processed_text :: flat_sections
  data_leveled_text :: leveled
  data_cleaned_text :: string

definition attempt :: "('a \<Rightarrow> error + 'a) \<Rightarrow> 'a \<Rightarrow> (error + 'a) \<times> 'a" where
  \<comment> \<open>\<open>x = f(x)\<close> inside a \<open>try\<close>: the exception if one is raised, and the value of \<open>x\<close>
      afterwards, unchanged when \<open>f\<close> raised\<close>
  "attempt f x = (case f x of Inl e \<Rightarrow> (Inl e, x) | Inr y \<Rightarrow> (Inr y, y))"

definition step2 :: "stages \<Rightarrow> flat_sections" where
  \<comment> \<open>Step 2: the segmenter chosen by the flag; \<open>{}\<close> when it raises or the flag is unset\<close>
  "step2 env =
     (case no_numbering_flag env of
        None \<Rightarrow> []
      | Some flag \<Rightarrow>
          (case (if flag then structure_no_numbering env else structure_by_toc env) of
             Inl e \<Rightarrow> []
           | Inr sections \<Rightarrow> sections))"

definition step3 :: "stages \<Rightarrow> flat_sections \<Rightarrow> flat_sections" where
  "step3 env s = (if s \<noteq> [] then snd (attempt (extract_sections env) s) else s)"

definition step4 :: "stages \<Rightarrow> flat_sections \<Rightarrow> flat_sections" where
  \<comment> \<open>the second call is made only when the first returned\<close>
  "step4 env s =
     (case no_numbering_flag env of
        None \<Rightarrow> s
      | Some flag \<Rightarrow>
          if flag \<and> s \<noteq> [] then
            (case attempt (process_titles env) s of
               (Inl e, s1) \<Rightarrow> s1
             | (Inr _, s1) \<Rightarrow> snd (attempt (refine_sections env) s1))
          else s)"

definition step5 :: "stages \<Rightarrow> flat_sections \<Rightarrow> flat_sections" where
  "step5 env s =
     (if s \<noteq> [] then
        (case attempt (normalize_keys env) s of
           (Inl e, s1) \<Rightarrow> s1
         | (Inr _, s1) \<Rightarrow>
             (case attempt (replace_numberings env) s1 of
                (Inl e, s2) \<Rightarrow> s2
              | (Inr _, s2) \<Rightarrow> snd (attempt (remove_title_from_text env) s2)))
      else s)"

definition step6 :: "stages \<Rightarrow> flat_sections \<Rightarrow> flat_sections" where
  "step6 env s =
     (case no_numbering_flag env of
        None \<Rightarrow> s
      | Some flag \<Rightarrow>
          if \<not> flag \<and> s \<noteq> [] then snd (attempt (process_titles_in_one_step env) s) else s)"

definition step7 :: "stages \<Rightarrow> flat_sections \<Rightarrow> leveled" where
  \<comment> \<open>\<open>leveled_text\<close> starts as \<open>{}\<close> and keeps the result of the last call that returned\<close>
  "step7 env s =
     (if s \<noteq> [] then
        (case organize_by_levels env s of
           Inl e \<Rightarrow> []
         | Inr l1 \<Rightarrow>
             (case attempt (restructure_levels env) l1 of
                (Inl e, l2) \<Rightarrow> l2
              | (Inr _, l2) \<Rightarrow> snd (attempt (resolve_and_filter env) l2)))
      else [])"

definition populate :: "stages \<Rightarrow> flat_sections \<Rightarrow> leveled \<Rightarrow> pipeline_data" where
  \<comment> \<open>the last \<open>try\<close>: four assignments to \<open>data\<close>, left at the first exception\<close>
  "populate env s l =
     (let data = \<lparr>data_metadata = [], data_processed_text = [], data_leveled_text = [], data_cleaned_text = []\<rparr>
      in case extract_metadata env of
           Inl e \<Rightarrow> data
         | Inr m \<Rightarrow>
             (let data = data\<lparr>data_metadata := m, data_leveled_text := l, data_processed_text := s\<rparr>
              in case extract_pdf_text_and_clean env of
                   Inl e \<Rightarrow> data
                 | Inr c \<Rightarrow> data\<lparr>data_cleaned_text := c\<rparr>))"

definition pipeline_body :: "stages \<Rightarrow> error + pipeline_data" where
  \<comment> \<open>the body of the outer \<open>try\<close>; every statement that can raise is inside a \<open>try\<close> of
      its own, so the body as a whole returns\<close>
  "pipeline_body env =
     (let s = step6 env (step5 env (step4 env (step3 env (step2 env))))
      in Inr (populate env s (step7 env s)))"

definition ordered_data :: "pipeline_data \<Rightarrow> (string \<times> field_value) list" where
  "ordered_data data =
     [(''metadata'', Mapping (data_metadata data)),
      (''leveled_text'', Tree (data_leveled_text data)),
      (''processed_text'', Mapping (data_processed_text data)),
      (''cleaned_text'', Text (data_cleaned_text data))]"

definition extract_all :: "stages \<Rightarrow> error + (string \<times> field_value) list" where
  \<comment> \<open>the handler of the outer \<open>try\<close> calls \<open>extract_metadata\<close> and
      \<open>extract_pdf_textand_clean\<close> unguarded; the exceptions of Step 8 are caught\<close>
  "extract_all env =
     (case pipeline_body env of
        Inr data \<Rightarrow> Inr (ordered_data data)
      | Inl e \<Rightarrow>
          (case extract_metadata env of
             Inl e' \<Rightarrow> Inl e'
           | Inr m \<Rightarrow>
               (case extract_pdf_text_and_clean env of
                  Inl e' \<Rightarrow> Inl e'
                | Inr c \<Rightarrow>
                    Inr (ordered_data \<lparr>data_metadata = m, data_processed_text = [],
                                       data_leveled_text = [], data_cleaned_text = c\<rparr>))))"

text \<open>Two runs: every stage raises; and the segmenter, the metadata and the whole-document
  text succeed while every later stage raises.\<close>

definition raising :: "'a \<Rightarrow> error + 'b" where
  "raising x = Inl RuntimeError"

definition failing_stages :: stages where
  "failing_stages =
     \<lparr>extract_toc = Inl RuntimeError, no_numbering_flag = None,
      structure_no_numbering = Inl RuntimeError, structure_by_toc = Inl RuntimeError,
      extract_sections = raising, process_titles = raising, refine_sections = raising,
      normalize_keys = raising, replace_numberings = raising, remove_title_from_text = raising,
      process_titles_in_one_step = raising, organize_by_levels = raising,
      restructure_levels = raising, resolve_and_filter = raising,
      extract_metadata = Inl SourceError, extract_pdf_text_and_clean = Inl SourceError,
      save_json = raising\<rparr>"

definition degraded_stages :: stages where
  "degraded_stages =
     failing_stages\<lparr>extract_toc := Inr (), no_numbering_flag := Some True,
       structure_no_numbering := Inr [(''Scope'', ''Scope of the report'')],
       extract_metadata := Inr [(''title'', ''Report'')],
       extract_pdf_text_and_clean := Inr ''Scope of the report''\<rparr>"

section \<open>TOC Rectifier: numbering recovery\<close>

text \<open>
  The patterns searched for are built at run time from the title, so the regular expression
  engine is a parameter: \<open>re_match pattern text\<close> stands for
  \<open>re.match(pattern, text, re.IGNORECASE)\<close> being a match, and may raise.
\<close>

record extractor =
  ex_doc :: document
  ex_config :: cleanup_config
  ex_re_delete :: "string \<Rightarrow> string \<Rightarrow> error + string"
  ex_re_match :: "string \<Rightarrow> string \<Rightarrow> error + bool"
  ex_flag :: bool

definition numbering_patterns :: "string list" where
  \<comment> \<open>bare digits up to four dotted levels, with and without the trailing dot\<close>
  "numbering_patterns =
     [bslash # ''d+'',
      bslash # ''d+'' @ bslash # ''.'',
      bslash # ''d+'' @ bslash # ''.'' @ bslash # ''d+'',
      bslash # ''d+'' @ bslash # ''.'' @ bslash # ''d+'' @ bslash # ''.'',
      bslash # ''d+'' @ bslash # ''.'' @ bslash # ''d+'' @ bslash # ''.'' @ bslash # ''d+'',
      bslash # ''d+'' @ bslash # ''.'' @ bslash # ''d+'' @ bslash # ''.'' @ bslash # ''d+''
        @ bslash # ''.'',
      bslash # ''d+'' @ bslash # ''.'' @ bslash # ''d+'' @ bslash # ''.'' @ bslash # ''d+''
        @ bslash # ''.'' @ bslash # ''d+'']"

definition upper_or_digit :: "char \<Rightarrow> bool" where
  "upper_or_digit c = (c \<in> set ''ABCDEFGHIJKLMNOPQRSTUVWXYZ'' \<or> ascii_digit c)"

definition suffix_runs :: "string \<Rightarrow> bool" where
  \<comment> \<open>the rest of the title matches \<open>([A-Z]+\s*|\d+\s*)*$\<close>: runs of capitals or of digits, each
      followed by whitespace or not; or it is the newline that ends the title\<close>
  "suffix_runs s =
     (s = [] \<or> s = [newline]
      \<or> (upper_or_digit (hd s) \<and> list_all (\<lambda>c. upper_or_digit c \<or> py_isspace c) s))"

definition clean_title_suffix :: "string \<Rightarrow> string" where
  \<comment> \<open>\<open>group(1).strip()\<close> of \<open>(.*?)([A-Z]+\s*|\d+\s*)*$\<close>: the shortest prefix without a
      newline whose rest is such runs; the title itself when nothing matches\<close>
  "clean_title_suffix t =
     (case find (\<lambda>k. newline \<notin> set (take k t) \<and> suffix_runs (drop k t))
             [0 ..< Suc (length t)] of
        None \<Rightarrow> t
      | Some k \<Rightarrow> strip (take k t))"

fun first_match ::
  "(string \<Rightarrow> string \<Rightarrow> error + bool) \<Rightarrow> string \<Rightarrow> string \<Rightarrow> nat list \<Rightarrow> error + nat option" where
  \<comment> \<open>\<open>for start_index in range(len(page_text))\<close>: the first offset where the pattern matches\<close>
  "first_match re_match pattern page_text [] = Inr None"
| "first_match re_match pattern page_text (start_index # rest) =
     (case re_match pattern (drop start_index page_text) of
        Inl e \<Rightarrow> Inl e
      | Inr matched \<Rightarrow>
          if matched then Inr (Some start_index)
          else first_match re_match pattern page_text rest)"

fun search_pages :: "extractor \<Rightarrow> string \<Rightarrow> nat \<Rightarrow> int list \<Rightarrow> error + string option" where
  \<comment> \<open>\<open>for page_num in range(start_page, end_page + 1)\<close>: the numbered title cut from the first
      page where the pattern matches, \<open>cut_len\<close> being \<open>len(numbering) + len(title_variant)\<close>\<close>
  "search_pages self pattern cut_len [] = Inr None"
| "search_pages self pattern cut_len (page_num # rest) =
     (case get_text (ex_doc self) page_num of
        Inl e \<Rightarrow> Inl e
      | Inr raw \<Rightarrow>
          (case clean_text (ex_re_delete self) (ex_config self) raw of
             Inl e \<Rightarrow> Inl e
           | Inr page_text \<Rightarrow>
               (case first_match (ex_re_match self) pattern page_text [0 ..< length page_text] of
                  Inl e \<Rightarrow> Inl e
                | Inr None \<Rightarrow> search_pages self pattern cut_len rest
                | Inr (Some match_position) \<Rightarrow>
                    (let numbered_title = take cut_len (drop match_position page_text)
                     in Inr (Some (if ex_flag self then clean_title_suffix numbered_title
                                   else numbered_title))))))"

record search_state =
  entry_title_now :: string
  processed_now :: "(string \<times> string) list"
  found_match :: bool

definition rewrite_title :: "string \<Rightarrow> string \<Rightarrow> search_state \<Rightarrow> search_state" where
  \<comment> \<open>the entry's title is replaced; the text filed under the original title moves to the
      new title; \<open>found_match = True\<close>\<close>
  "rewrite_title original_title numbered_title st =
     st\<lparr>entry_title_now := numbered_title,
        processed_now :=
          (case map_of (processed_now st) original_title of
             None \<Rightarrow> processed_now st
           | Some v \<Rightarrow>
               dict_set (filter (\<lambda>kv. fst kv \<noteq> original_title) (processed_now st))
                 numbered_title v),
        found_match := True\<rparr>"

fun variant_loop ::
  "extractor \<Rightarrow> string \<Rightarrow> string \<Rightarrow> int list \<Rightarrow> string list \<Rightarrow> search_state
     \<Rightarrow> error + search_state" where
  \<comment> \<open>\<open>for title_variant in title_variations\<close>, left by \<open>if found_match: break\<close>\<close>
  "variant_loop self original_title numbering pages [] st = Inr st"
| "variant_loop self original_title numbering pages (title_variant # rest) st =
     (case search_pages self (numbering @ bslash # ''s*'' @ title_variant)
             (length numbering + length title_variant) pages of
        Inl e \<Rightarrow> Inl e
      | Inr hit \<Rightarrow>
          (let st' = (case hit of
                        None \<Rightarrow> st
                      | Some numbered_title \<Rightarrow> rewrite_title original_title numbered_title st)
           in if found_match st' then Inr st'
              else variant_loop self original_title numbering pages rest st'))"

fun numbering_loop ::
  "extractor \<Rightarrow> string \<Rightarrow> int list \<Rightarrow> string list \<Rightarrow> string list \<Rightarrow> search_state
     \<Rightarrow> error + search_state" where
  \<comment> \<open>\<open>for numbering in numbering_patterns\<close>: it has no \<open>break\<close>\<close>
  "numbering_loop self original_title pages variants [] st = Inr st"
| "numbering_loop self original_title pages variants (numbering # rest) st =
     (case variant_loop self original_title numbering pages variants st of
        Inl e \<Rightarrow> Inl e
      | Inr st' \<Rightarrow> numbering_loop self original_title pages variants rest st')"

definition search_entry ::
  "extractor \<Rightarrow> nat \<Rightarrow> toc_entry list \<times> (string \<times> string) list
     \<Rightarrow> error + toc_entry list \<times> (string \<times> string) list" where
  \<comment> \<open>one round of \<open>for i, toc_entry in enumerate(toc)\<close>\<close>
  "search_entry self i state =
     (let toc = fst state; original_title = toc_title (toc ! i)
      in case generate_title_variations original_title of
           Inl e \<Rightarrow> Inl e
         | Inr title_variations \<Rightarrow>
             (case numbering_loop self original_title (entry_pages (ex_doc self) toc i)
                     title_variations numbering_patterns
                     \<lparr>entry_title_now = original_title, processed_now = snd state,
                      found_match = False\<rparr> of
                Inl e \<Rightarrow> Inl e
              | Inr st \<Rightarrow>
                  Inr (toc[i := (toc ! i)\<lparr>toc_title := entry_title_now st\<rparr>], processed_now st)))"

fun search_entries ::
  "extractor \<Rightarrow> nat list \<Rightarrow> toc_entry list \<times> (string \<times> string) list
     \<Rightarrow> error + toc_entry list \<times> (string \<times> string) list" where
  "search_entries self [] state = Inr state"
| "search_entries self (i # rest) state =
     (case search_entry self i state of
        Inl e \<Rightarrow> Inl e
      | Inr state' \<Rightarrow> search_entries self rest state')"

definition search_and_replace_numbered_titles ::
  "extractor \<Rightarrow> toc_entry list \<Rightarrow> (string \<times> string) list
     \<Rightarrow> error + toc_entry list \<times> (string \<times> string) list" where
  \<comment> \<open>the TOC and the mapping after the in-place updates; any exception becomes RuntimeError\<close>
  "search_and_replace_numbered_titles self toc processed =
     (case search_entries self [0 ..< length toc] (toc, processed) of
        Inl e \<Rightarrow> Inl RuntimeError
      | Inr state \<Rightarrow> Inr state)"

text \<open>
  A matcher for the patterns this code builds from a title of letters, digits and spaces:
  \<open>\d+\<close>, \<open>\s*\<close>, an escaped character, \<open>.\<close> and literal characters, letters compared without
  case. On such patterns it agrees with \<open>re.match(pattern, text, re.IGNORECASE)\<close>.
\<close>

definition same_letter :: "char \<Rightarrow> char \<Rightarrow> bool" where
  "same_letter a b =
     (a = b
      \<or> (a, b) \<in> set (zip ''ABCDEFGHIJKLMNOPQRSTUVWXYZ'' ''abcdefghijklmnopqrstuvwxyz'')
      \<or> (b, a) \<in> set (zip ''ABCDEFGHIJKLMNOPQRSTUVWXYZ'' ''abcdefghijklmnopqrstuvwxyz''))"

function match_here :: "string \<Rightarrow> string \<Rightarrow> bool" where
  "match_here [] t = True"
| "match_here (c # p) t =
     (if c = bslash then
        (case p of
           [] \<Rightarrow> False
         | x # p' \<Rightarrow>
             if x = CHR ''d'' \<and> startswith p' ''+''
             then list_ex (\<lambda>n. match_here (tl p') (drop n t))
                    [1 ..< Suc (length (takeWhile ascii_digit t))]
             else if x = CHR ''s'' \<and> startswith p' ''*''
             then list_ex (\<lambda>n. match_here (tl p') (drop n t))
                    [0 ..< Suc (length (takeWhile py_isspace t))]
             else (case t of [] \<Rightarrow> False | y # t' \<Rightarrow> y = x \<and> match_here p' t'))
      else if c = CHR ''.''
        then (case t of [] \<Rightarrow> False | y # t' \<Rightarrow> y \<noteq> newline \<and> match_here p t')
      else (case t of [] \<Rightarrow> False | y # t' \<Rightarrow> same_letter y c \<and> match_here p t'))"
  by pat_completeness auto
termination
  by (relation "measure (\<lambda>(p, t). length p)") (auto simp: startswith_def)

definition re_match_titles :: "string \<Rightarrow> string \<Rightarrow> error + bool" where
  "re_match_titles pattern text = Inr (match_here pattern text)"

text \<open>A TOC of one entry \<open>Intro\<close> on a page whose text is \<open>1Intro 2.Intro\<close>.\<close>

definition two_hits_text :: "int \<Rightarrow> error + string" where
  "two_hits_text page_num = (if page_num = 0 then Inr ''1Intro 2.Intro'' else Inl SourceError)"

definition two_hits_extractor :: extractor where
  "two_hits_extractor =
     \<lparr>ex_doc = \<lparr>page_count = 1, get_text = two_hits_text\<rparr>, ex_config = empty_config,
      ex_re_delete = no_match_delete, ex_re_match = re_match_titles, ex_flag = True\<rparr>"

section \<open>Properties of the numbering codec\<close>

lemma lt10_cases: "(d::nat) < 10 \<Longrightarrow> d \<in> {0, 1, 2, 3, 4, 5, 6, 7, 8, 9}"
  by auto

lemma digit_val_char: "d < 10 \<Longrightarrow> digit_val (digit_char d) = d"
  by (drule lt10_cases) (auto simp: digit_val_def digit_char_def)

lemma ascii_digit_char: "d < 10 \<Longrightarrow> ascii_digit (digit_char d)"
  by (drule lt10_cases) (auto simp: ascii_digit_def digit_char_def)

lemma ascii_digit_not_dot: "ascii_digit c \<Longrightarrow> c \<noteq> CHR ''.''"
  by (auto simp: ascii_digit_def)

lemma str_nat_digits: "list_all ascii_digit (str_nat n)"
proof (induction n rule: str_nat.induct)
  case (1 n)
  show ?case
  proof (cases "n < 10")
    case True
    then show ?thesis by (subst str_nat.simps) (simp add: ascii_digit_char)
  next
    case False
    with 1 show ?thesis by (subst str_nat.simps) (simp add: ascii_digit_char)
  qed
qed

lemma str_nat_nonempty: "str_nat n \<noteq> []"
  by (subst str_nat.simps) simp

lemma str_nat_value: "foldl (\<lambda>a c. 10 * a + digit_val c) 0 (str_nat n) = n"
proof (induction n rule: str_nat.induct)
  case (1 n)
  show ?case
  proof (cases "n < 10")
    case True
    then show ?thesis by (subst str_nat.simps) (simp add: digit_val_char)
  next
    case False
    with 1 show ?thesis by (subst str_nat.simps) (simp add: digit_val_char)
  qed
qed

lemma py_int_str_nat: "py_int (str_nat n) = Inr n"
  by (simp add: py_int_def str_nat_nonempty str_nat_digits str_nat_value)

lemma sequence_py_int_str: "sequence (map (py_int \<circ> str_nat) ts) = Inr ts"
  by (induction ts) (simp_all add: py_int_str_nat)

lemma split_on_nonempty: "split_on c s \<noteq> []"
  by (induction s) (auto split: list.splits)

lemma split_on_no_sep: "c \<notin> set w \<Longrightarrow> split_on c (w @ c # s) = w # split_on c s"
  by (induction w) (auto split: list.splits simp: split_on_nonempty)

lemma split_on_word: "c \<notin> set w \<Longrightarrow> split_on c w = [w]"
  by (induction w) (auto split: list.splits)

lemma split_on_join:
  "ws \<noteq> [] \<Longrightarrow> \<forall>w \<in> set ws. c \<notin> set w \<Longrightarrow> split_on c (join [c] ws) = ws"
proof (induction "[c]" ws rule: join.induct)
  case 1
  then show ?case by simp
next
  case (2 w)
  then show ?case by (simp add: split_on_word)
next
  case (3 w v ws)
  then show ?case by (simp add: split_on_no_sep)
qed

lemma dropWhile_keep: "s \<noteq> [] \<Longrightarrow> \<not> p (hd s) \<Longrightarrow> dropWhile p s = s"
  by (cases s) auto

lemma strip_chars_snoc:
  assumes "s \<noteq> []" "\<not> p (hd s)" "\<not> p (last s)" "p c"
  shows "strip_chars p (s @ [c]) = s"
proof -
  have "dropWhile p (s @ [c]) = s @ [c]"
    using assms by (intro dropWhile_keep) auto
  moreover have "dropWhile p (rev s) = rev s"
    using assms by (intro dropWhile_keep) (auto simp: hd_rev)
  ultimately show ?thesis
    using assms by (simp add: strip_chars_def)
qed

lemma hd_join: "ws \<noteq> [] \<Longrightarrow> hd ws \<noteq> [] \<Longrightarrow> hd (join sep ws) = hd (hd ws)"
  by (induction sep ws rule: join.induct) auto

lemma join_nonempty: "ws \<noteq> [] \<Longrightarrow> \<forall>w \<in> set ws. w \<noteq> [] \<Longrightarrow> join sep ws \<noteq> []"
  by (induction sep ws rule: join.induct) auto

lemma last_join:
  "ws \<noteq> [] \<Longrightarrow> \<forall>w \<in> set ws. w \<noteq> [] \<Longrightarrow> last (join sep ws) = last (last ws)"
proof (induction sep ws rule: join.induct)
  case (3 sep w v ws)
  then have "join sep (v # ws) \<noteq> []" by (intro join_nonempty) auto
  with 3 show ?case by simp
qed auto

lemma parse_render:
  assumes "ts \<noteq> []"
  shows "parse_numbering (render_numbering ts) = Inr ts"
proof -
  let ?ws = "map str_nat ts"
  have ne: "?ws \<noteq> []" using assms by simp
  have dig: "\<forall>w \<in> set ?ws. w \<noteq> [] \<and> list_all ascii_digit w"
    by (auto simp: str_nat_nonempty str_nat_digits)
  have nodot: "\<forall>w \<in> set ?ws. CHR ''.'' \<notin> set w"
    using dig by (auto simp: list_all_iff dest: ascii_digit_not_dot)
  have h: "hd ?ws \<noteq> []" using ne dig by (cases ts) auto
  have allne: "\<forall>w \<in> set ?ws. w \<noteq> []" using dig by blast
  have jne: "join ''.'' ?ws \<noteq> []" by (rule join_nonempty[OF ne allne])
  have "hd (hd ?ws) \<in> set (hd ?ws)" using h by simp
  moreover have "hd ?ws \<in> set ?ws" using ne by (rule hd_in_set)
  ultimately have hd_nd: "hd (join ''.'' ?ws) \<noteq> CHR ''.''"
    using nodot hd_join[OF ne h, of "''.''"] by metis
  have "last ?ws \<noteq> []" using allne ne last_in_set by blast
  then have "last (last ?ws) \<in> set (last ?ws)" by simp
  moreover have "last ?ws \<in> set ?ws" using ne by (rule last_in_set)
  ultimately have last_nd: "last (join ''.'' ?ws) \<noteq> CHR ''.''"
    using nodot last_join[OF ne allne, of "''.''"] by metis
  have "strip_dot (render_numbering ts) = join ''.'' ?ws"
    unfolding strip_dot_def render_numbering_def
    using strip_chars_snoc[OF jne, of "\<lambda>c. c = CHR ''.''" "CHR ''.''"] hd_nd last_nd
    by simp
  moreover have "split_on CHR ''.'' (join ''.'' ?ws) = ?ws"
    using split_on_join[OF ne nodot] by simp
  ultimately show ?thesis
    by (simp add: parse_numbering_def sequence_py_int_str)
qed


lemma generate_next_parses:
  "ts \<noteq> [] \<Longrightarrow>
   generate_next_numberings (render_numbering ts) = Inr (sort (remdups (possibilities ts)))"
  by (simp add: generate_next_numberings_def parse_render)

lemma incremented_in_possibilities:
  "render_numbering (butlast ts @ [last ts + 1]) \<in> set (possibilities ts)"
  by (simp add: possibilities_def)

lemma render_numbering_inj:
  assumes "us \<noteq> []"
  shows "render_numbering us = render_numbering vs \<longleftrightarrow> us = vs"
proof
  assume eq: "render_numbering us = render_numbering vs"
  have "vs \<noteq> []"
  proof
    assume "vs = []"
    with eq have "join ''.'' (map str_nat us) = []" by (simp add: render_numbering_def)
    moreover have "join ''.'' (map str_nat us) \<noteq> []"
      using assms by (intro join_nonempty) (auto simp: str_nat_nonempty)
    ultimately show False by simp
  qed
  then have "parse_numbering (render_numbering vs) = Inr vs" by (rule parse_render)
  moreover have "parse_numbering (render_numbering us) = Inr us" using assms by (rule parse_render)
  ultimately show "us = vs" using eq by simp
qed simp

text \<open>
  C6. Numbering round-trip: for every numbering token of depth 1 to 4 whose components are
  positive integers, parsing the rendered canonical string (components joined by dots,
  with a trailing dot) gives the token back.
\<close>

theorem numbering_round_trip:
  assumes "1 \<le> length token" and "length token \<le> 4" and "\<forall>n \<in> set token. 0 < n"
  shows "parse_numbering (render_numbering token) = Inr token"
proof -
  from assms(1) have "token \<noteq> []" by auto
  then show ?thesis by (rule parse_render)
qed

theorem numbering_round_trip_witness:
  "1 \<le> length [2, 1 :: nat] \<and> length [2, 1 :: nat] \<le> 4
   \<and> render_numbering [2, 1] = ''2.1.''
   \<and> parse_numbering (render_numbering [2, 1]) = Inr [2, 1]"
  using numbering_round_trip [of "[2, 1]"]
  by (simp add: render_numbering_def str_nat.simps digit_char_def)

text \<open>
  C7. Candidate-set monotonicity: for every well-formed (non-empty) numbering token, the
  token with its last component incremented by one is rendered into the candidate list
  that \<open>generate_next_numberings\<close> returns for the token's canonical string.
\<close>

theorem increment_last_is_candidate:
  assumes "token \<noteq> []"
  shows "\<exists>candidates.
           generate_next_numberings (render_numbering token) = Inr candidates
           \<and> render_numbering (butlast token @ [last token + 1]) \<in> set candidates"
proof -
  have "generate_next_numberings (render_numbering token)
          = Inr (sort (remdups (possibilities token)))"
    using assms by (rule generate_next_parses)
  moreover have "render_numbering (butlast token @ [last token + 1])
          \<in> set (sort (remdups (possibilities token)))"
    using incremented_in_possibilities [of token] by simp
  ultimately show ?thesis by blast
qed

theorem increment_last_is_candidate_witness:
  "[1, 2 :: nat] \<noteq> []
   \<and> (\<exists>candidates.
         generate_next_numberings (render_numbering [1, 2]) = Inr candidates
         \<and> render_numbering [1, 3] \<in> set candidates)"
  using increment_last_is_candidate [of "[1, 2]"] by simp

section \<open>Properties of the Numbering Consistency Repairer\<close>

lemma possibilities_tokens:
  "possibilities parts = map render_numbering (possibility_tokens parts)"
  unfolding possibilities_def possibility_tokens_def
  by (simp only: map_append map_concat map_map comp_def list.map if_distrib [of "map render_numbering"]
       if_distrib [of "\<lambda>xs. render_numbering (parts @ [x]) # xs" for x] append_assoc)

lemma possibility_tokens_nonempty: "t \<in> set (possibility_tokens parts) \<Longrightarrow> t \<noteq> []"
  by (auto simp: possibility_tokens_def split: if_splits)

lemma candidate_iff:
  assumes "ts \<noteq> []" and "us \<noteq> []"
  shows "\<exists>g. generate_next_numberings (render_numbering ts) = Inr g
           \<and> (render_numbering us \<in> set g \<longleftrightarrow> us \<in> set (possibility_tokens ts))"
proof -
  have "generate_next_numberings (render_numbering ts) = Inr (sort (remdups (possibilities ts)))"
    using assms(1) by (rule generate_next_parses)
  moreover have "render_numbering us \<in> set (sort (remdups (possibilities ts)))
      \<longleftrightarrow> us \<in> set (possibility_tokens ts)"
  proof -
    have "render_numbering us \<in> render_numbering ` set (possibility_tokens ts)
        \<longleftrightarrow> us \<in> set (possibility_tokens ts)"
    proof
      assume "render_numbering us \<in> render_numbering ` set (possibility_tokens ts)"
      then obtain t where t: "t \<in> set (possibility_tokens ts)"
        and "render_numbering us = render_numbering t" by blast
      then have "us = t" using render_numbering_inj [OF assms(2), of t] by simp
      with t show "us \<in> set (possibility_tokens ts)" by simp
    next
      assume "us \<in> set (possibility_tokens ts)"
      then show "render_numbering us \<in> render_numbering ` set (possibility_tokens ts)"
        by (rule imageI)
    qed
    then show ?thesis by (simp add: possibilities_tokens)
  qed
  ultimately show ?thesis by blast
qed

lemma scenario_child_candidate: "[1, 1] \<in> set (possibility_tokens [1])"
  by (auto simp: possibility_tokens_def py_range_def)

lemma scenario_jump_not_candidate: "[2, 1] \<notin> set (possibility_tokens [1, 1])"
  by (auto simp: possibility_tokens_def py_range_def)

lemma scenario_renderings: "render_numbering [1] = ''1.''" "render_numbering [1, 1] = ''1.1.''" "render_numbering [2, 1] = ''2.1.''"
  by (simp_all add: render_numbering_def str_nat.simps digit_char_def)

lemma scenario_numberings:
  "map extract_numbering [''1. Intro'', ''1.1. Background'', ''2.1. Oops''] = [''1.'', ''1.1.'', ''2.1.'']"
  by (simp add: extract_numbering_def split1_def isdigit_def remove_char_def py_isdigit_char_def ascii_digit_def)

lemma scenario_flagged:
  "non_logical_indexes [''1.'', ''1.1.'', ''2.1.''] = Inr [2]"
proof -
  let ?ns = "[''1.'', ''1.1.'', ''2.1.'']"
  obtain g where g: "generate_next_numberings ''1.'' = Inr g" and g_in: "''1.1.'' \<in> set g"
    using candidate_iff [of "[1]" "[1, 1]", unfolded scenario_renderings] scenario_child_candidate
    by auto
  obtain g' where g': "generate_next_numberings ''1.1.'' = Inr g'" and g'_out: "''2.1.'' \<notin> set g'"
    using candidate_iff [of "[1, 1]" "[2, 1]", unfolded scenario_renderings]
      scenario_jump_not_candidate
    by auto
  have first: "inner_scan ?ns ''1.'' 1 [] = Inr (Some 1, [])"
    using g g_in by (subst inner_scan.simps) (simp add: eval_nat_numeral)
  have "inner_scan ?ns ''1.1.'' 3 [2] = Inr (None, [2])"
    by (subst inner_scan.simps) (simp add: eval_nat_numeral)
  then have second: "inner_scan ?ns ''1.1.'' 2 [] = Inr (None, [2])"
    using g' g'_out by (subst inner_scan.simps) (simp add: eval_nat_numeral)
  have "outer_scan ?ns 1 [] = Inr [2]"
    using second by (subst outer_scan.simps) (simp add: eval_nat_numeral)
  then have "outer_scan ?ns 0 [] = Inr [2]"
    using first by (subst outer_scan.simps) (simp add: eval_nat_numeral)
  then show ?thesis by (simp add: non_logical_indexes_def)
qed

lemma scenario_no_successor: "next_valid [''1.'', ''1.1.'', ''2.1.''] 2 = None"
  by (simp add: next_valid_def)

lemma scenario_reconstructed:
  "reconstructed_numberings [''1.'', ''1.1.'', ''2.1.''] = Inr [''1.'', ''1.1.'', ''2.1.'']"
  by (simp add: reconstructed_numberings_def scenario_flagged reconstruct_at_def
      scenario_no_successor truthy_def)

lemma scenario_new_keys:
  "new_keys [''1. Intro'', ''1.1. Background'', ''2.1. Oops''] [''1.'', ''1.1.'', ''2.1.'']
     = [''1. Intro'', ''1.1. Background'', ''2.1. Oops'']"
  by (simp add: new_keys_def new_key_def blank_indexes_def split1_def isdigit_def remove_char_def
      py_isdigit_char_def ascii_digit_def upt_rec)

lemma scenario_result:
  "find_and_replace_numberings [(''1. Intro'', a), (''1.1. Background'', b), (''2.1. Oops'', c)]
     = Inr [(''1. Intro'', a), (''1.1. Background'', b), (''2.1. Oops'', c)]"
  using scenario_numberings
  by (simp add: find_and_replace_numberings_def scenario_reconstructed scenario_new_keys)

text \<open>
  C4 (amended). For the title sequence \<open>1. Intro\<close>, \<open>1.1. Background\<close>, \<open>2.1. Oops\<close> the
  Repairer flags position 2 (\<open>2.1.\<close>) as a non-logical successor of \<open>1.1.\<close>; no non-blank
  numbering follows it, so nothing is reconstructed and the output mapping is the input
  mapping, the last key still \<open>2.1. Oops\<close>.
\<close>

theorem repair_scenario_flagged_not_rewritten:
  "non_logical_indexes (map extract_numbering [''1. Intro'', ''1.1. Background'', ''2.1. Oops''])
     = Inr [2]
   \<and> next_valid (map extract_numbering [''1. Intro'', ''1.1. Background'', ''2.1. Oops'']) 2 = None
   \<and> find_and_replace_numberings
         [(''1. Intro'', a), (''1.1. Background'', b), (''2.1. Oops'', c)]
       = Inr [(''1. Intro'', a), (''1.1. Background'', b), (''2.1. Oops'', c)]"
  by (simp only: scenario_numberings scenario_flagged scenario_no_successor scenario_result)

text \<open>
  C4 as stated fails: on that input the entry keeps the numbering \<open>2.1.\<close> in the output.
\<close>

theorem repair_scenario_keeps_numbering:
  "find_and_replace_numberings
     [(''1. Intro'', ''a''), (''1.1. Background'', ''b''), (''2.1. Oops'', ''c'')]
   = Inr [(''1. Intro'', ''a''), (''1.1. Background'', ''b''), (''2.1. Oops'', ''c'')]"
  by (rule scenario_result)

lemma render_numbering_nonempty: "render_numbering ps \<noteq> []"
  by (simp add: render_numbering_def)

lemma truthy_find:
  "truthy (find (\<lambda>s. s \<noteq> []) xs) \<Longrightarrow> \<exists>s \<in> set xs. s \<noteq> [] \<and> find (\<lambda>s. s \<noteq> []) xs = Some s"
  by (induction xs) (auto simp: truthy_def)

lemma truthy_prev_valid:
  assumes "truthy (prev_valid rs idx)"
  shows "\<exists>i<idx. i < length rs \<and> rs ! i \<noteq> []"
proof -
  from truthy_find [OF assms [unfolded prev_valid_def]]
  obtain s where "s \<in> set (take idx rs)" and "s \<noteq> []" by auto
  then show ?thesis by (auto simp: in_set_conv_nth)
qed

lemma truthy_next_valid:
  assumes "truthy (next_valid rs idx)"
  shows "\<exists>j>idx. j < length rs \<and> rs ! j \<noteq> []"
proof -
  from truthy_find [OF assms [unfolded next_valid_def]]
  obtain s where "s \<in> set (drop (idx + 1) rs)" and "s \<noteq> []" by auto
  then obtain i where i: "i < length rs - (idx + 1)" "drop (idx + 1) rs ! i = s"
    by (auto simp: in_set_conv_nth)
  then have "rs ! (idx + 1 + i) = s" by simp
  with i \<open>s \<noteq> []\<close> show ?thesis by (intro exI [of _ "idx + 1 + i"]) auto
qed

lemma reconstruct_at_length:
  "reconstruct_at rs idx = Inr rs' \<Longrightarrow> length rs' = length rs"
  by (auto simp: reconstruct_at_def split: if_splits sum.splits)

lemma reconstruct_at_other:
  "reconstruct_at rs idx = Inr rs' \<Longrightarrow> k \<noteq> idx \<Longrightarrow> rs' ! k = rs ! k"
  by (auto simp: reconstruct_at_def split: if_splits sum.splits)

lemma reconstruct_at_changed:
  "reconstruct_at rs idx = Inr rs' \<Longrightarrow> rs' ! idx \<noteq> rs ! idx \<Longrightarrow>
     truthy (prev_valid rs idx) \<and> truthy (next_valid rs idx)"
  by (auto simp: reconstruct_at_def split: if_splits sum.splits)

lemma reconstruct_at_nonblank:
  "reconstruct_at rs idx = Inr rs' \<Longrightarrow> idx < length rs \<Longrightarrow> rs ! idx \<noteq> [] \<Longrightarrow> rs' ! idx \<noteq> []"
  by (auto simp: reconstruct_at_def render_numbering_nonempty split: if_splits sum.splits)

lemma reconstruct_invariant:
  assumes "reconstruct idxs rs = Inr rs'"
    and "\<forall>idx \<in> set idxs. idx < length rs \<and> rs ! idx \<noteq> []"
  shows "length rs' = length rs
    \<and> (\<forall>k<length rs. rs' ! k = [] \<longleftrightarrow> rs ! k = [])
    \<and> (\<forall>k<length rs. rs' ! k \<noteq> rs ! k \<longrightarrow>
          k \<in> set idxs \<and> (\<exists>i<k. rs ! i \<noteq> []) \<and> (\<exists>j>k. j < length rs \<and> rs ! j \<noteq> []))"
  using assms
proof (induction idxs arbitrary: rs)
  case Nil
  then show ?case by simp
next
  case (Cons idx idxs)
  from Cons.prems(1) obtain r1 where at: "reconstruct_at rs idx = Inr r1"
    and rest: "reconstruct idxs r1 = Inr rs'"
    by (auto split: sum.splits)
  have len: "length r1 = length rs" using at by (rule reconstruct_at_length)
  have idx: "idx < length rs" "rs ! idx \<noteq> []" using Cons.prems(2) by auto
  have blank: "r1 ! k = [] \<longleftrightarrow> rs ! k = []" for k
  proof (cases "k = idx")
    case True
    with reconstruct_at_nonblank [OF at idx] idx show ?thesis by simp
  next
    case False
    with reconstruct_at_other [OF at] show ?thesis by simp
  qed
  have pre: "\<forall>i \<in> set idxs. i < length r1 \<and> r1 ! i \<noteq> []"
  proof
    fix i assume "i \<in> set idxs"
    with Cons.prems(2) have "i < length rs" "rs ! i \<noteq> []" by simp_all
    then show "i < length r1 \<and> r1 ! i \<noteq> []" by (simp add: len blank)
  qed
  from Cons.IH [OF rest pre]
  have ih_len: "length rs' = length r1"
    and ih_blank: "\<forall>k<length r1. rs' ! k = [] \<longleftrightarrow> r1 ! k = []"
    and ih_change: "\<forall>k<length r1. rs' ! k \<noteq> r1 ! k \<longrightarrow>
          k \<in> set idxs \<and> (\<exists>i<k. r1 ! i \<noteq> []) \<and> (\<exists>j>k. j < length r1 \<and> r1 ! j \<noteq> [])"
    by blast+
  have change: "k \<in> set (idx # idxs) \<and> (\<exists>i<k. rs ! i \<noteq> []) \<and> (\<exists>j>k. j < length rs \<and> rs ! j \<noteq> [])"
    if k: "k < length rs" and ne: "rs' ! k \<noteq> rs ! k" for k
  proof (cases "rs' ! k = r1 ! k")
    case True
    with ne have r1k: "r1 ! k \<noteq> rs ! k" by simp
    with reconstruct_at_other [OF at] have kidx: "k = idx" by blast
    from r1k kidx reconstruct_at_changed [OF at]
    have "truthy (prev_valid rs idx)" and "truthy (next_valid rs idx)" by simp_all
    then have "\<exists>i<idx. i < length rs \<and> rs ! i \<noteq> []" and "\<exists>j>idx. j < length rs \<and> rs ! j \<noteq> []"
      by (simp_all add: truthy_prev_valid truthy_next_valid)
    with kidx show ?thesis by auto
  next
    case False
    with ih_change k len
    have kin: "k \<in> set idxs" and p: "\<exists>i<k. r1 ! i \<noteq> []"
      and n: "\<exists>j>k. j < length r1 \<and> r1 ! j \<noteq> []"
      by simp_all
    from p obtain i where "i < k" "r1 ! i \<noteq> []" by blast
    then have p': "\<exists>i<k. rs ! i \<noteq> []" using blank [of i] by blast
    from n obtain j where "j > k" "j < length r1" "r1 ! j \<noteq> []" by blast
    then have n': "\<exists>j>k. j < length rs \<and> rs ! j \<noteq> []" using blank [of j] len by auto
    from kin p' n' show ?thesis by simp
  qed
  have c1: "length rs' = length rs" using len ih_len by simp
  have c2: "\<forall>k<length rs. rs' ! k = [] \<longleftrightarrow> rs ! k = []"
    using ih_blank len by (simp add: blank)
  have c3: "\<forall>k<length rs. rs' ! k \<noteq> rs ! k \<longrightarrow>
          k \<in> set (idx # idxs) \<and> (\<exists>i<k. rs ! i \<noteq> []) \<and> (\<exists>j>k. j < length rs \<and> rs ! j \<noteq> [])"
    using change by blast
  from c1 c2 c3 show ?case by blast
qed

lemma inner_scan_flags:
  assumes "inner_scan ns c j acc = Inr (r, bad)"
    and "\<forall>x \<in> set acc. x < length ns \<and> ns ! x \<noteq> []"
  shows "\<forall>x \<in> set bad. x < length ns \<and> ns ! x \<noteq> []"
  using assms
proof (induction ns c j acc rule: inner_scan.induct)
  case (1 ns c j acc)
  show ?case
  proof (cases "j < length ns")
    case False
    with 1(3,4) show ?thesis by (simp add: inner_scan.simps [of ns c j acc])
  next
    case True
    note j = True
    show ?thesis
    proof (cases "ns ! j = []")
      case True
      with j 1(3) have "inner_scan ns c (j + 1) acc = Inr (r, bad)"
        by (simp add: inner_scan.simps [of ns c j acc])
      with 1(1) [OF j True] 1(4) show ?thesis by simp
    next
      case False
      note nb = False
      show ?thesis
      proof (cases "generate_next_numberings c")
        case (Inl e)
        with j nb 1(3) show ?thesis by (simp add: inner_scan.simps [of ns c j acc])
      next
        case (Inr g)
        show ?thesis
        proof (cases "ns ! j \<in> set g")
          case True
          with j nb Inr 1(3,4) show ?thesis by (simp add: inner_scan.simps [of ns c j acc])
        next
          case False
          with j nb Inr 1(3) have step: "inner_scan ns c (j + 1) (acc @ [j]) = Inr (r, bad)"
            by (simp add: inner_scan.simps [of ns c j acc])
          have pre: "\<forall>x \<in> set (acc @ [j]). x < length ns \<and> ns ! x \<noteq> []"
            using 1(4) j nb by simp
          from 1(2) [OF j nb Inr False step pre] show ?thesis .
        qed
      qed
    qed
  qed
qed

lemma outer_scan_flags:
  assumes "outer_scan ns i acc = Inr bad"
    and "\<forall>x \<in> set acc. x < length ns \<and> ns ! x \<noteq> []"
  shows "\<forall>x \<in> set bad. x < length ns \<and> ns ! x \<noteq> []"
  using assms
proof (induction ns i acc rule: outer_scan.induct)
  case (1 ns i acc)
  show ?case
  proof (cases "i + 1 < length ns")
    case False
    with 1(3,4) show ?thesis by (simp add: outer_scan.simps [of ns i acc])
  next
    case True
    note i = True
    show ?thesis
    proof (cases "ns ! i = []")
      case True
      with i 1(3) have "outer_scan ns (i + 1) acc = Inr bad"
        by (simp add: outer_scan.simps [of ns i acc])
      with 1(1) [OF i True] 1(4) show ?thesis by simp
    next
      case False
      note nb = False
      show ?thesis
      proof (cases "inner_scan ns (ns ! i) (i + 1) acc")
        case (Inl e)
        with i nb 1(3) show ?thesis by (simp add: outer_scan.simps [of ns i acc])
      next
        case (Inr res)
        obtain r acc' where res: "res = (r, acc')" by (cases res)
        have acc': "\<forall>x \<in> set acc'. x < length ns \<and> ns ! x \<noteq> []"
          using inner_scan_flags [OF Inr [unfolded res] 1(4)] .
        show ?thesis
        proof (cases r)
          case None
          with i nb Inr res 1(3) have "bad = acc'"
            by (simp add: outer_scan.simps [of ns i acc])
          with acc' show ?thesis by simp
        next
          case (Some j)
          with i nb Inr res 1(3) have "outer_scan ns (j - 1 + 1) acc' = Inr bad"
            by (simp add: outer_scan.simps [of ns i acc])
          with 1(2) [OF i nb Inr res [symmetric] Some] acc' show ?thesis by simp
        qed
      qed
    qed
  qed
qed

lemma non_logical_indexes_nonblank:
  assumes "non_logical_indexes ns = Inr idxs"
  shows "\<forall>idx \<in> set idxs. idx < length ns \<and> ns ! idx \<noteq> []"
proof -
  from assms obtain bad where "outer_scan ns 0 [] = Inr bad" and "idxs = sort (remdups bad)"
    by (auto simp: non_logical_indexes_def split: sum.splits)
  with outer_scan_flags [of ns 0 "[]" bad] show ?thesis by simp
qed

lemma isdigit_nonempty: "isdigit s \<Longrightarrow> s \<noteq> []"
  by (simp add: isdigit_def)

lemma extract_numbering_blank_iff:
  "extract_numbering key = [] \<longleftrightarrow> \<not> isdigit (remove_char CHR ''.'' (split1 key ! 0))"
proof (cases "isdigit (remove_char CHR ''.'' (split1 key ! 0))")
  case True
  then have "remove_char CHR ''.'' (split1 key ! 0) \<noteq> []" by (rule isdigit_nonempty)
  then have "split1 key ! 0 \<noteq> []" by (auto simp: remove_char_def)
  with True show ?thesis by (simp add: extract_numbering_def)
next
  case False
  then show ?thesis by (simp add: extract_numbering_def)
qed

lemma blank_indexes_iff:
  "k \<in> set (blank_indexes keys) \<longleftrightarrow> k < length keys \<and> extract_numbering (keys ! k) = []"
  by (auto simp: blank_indexes_def extract_numbering_blank_iff)

lemma split1_rejoin:
  "(if length (split1 key) > 1 then split1 key ! 0 @ '' '' @ split1 key ! 1 else split1 key ! 0) = key"
proof (cases "CHR '' '' \<in> set key")
  case False
  then show ?thesis by (simp add: split1_def)
next
  case True
  let ?d = "dropWhile (\<lambda>c. c \<noteq> CHR '' '') key"
  from True have ne: "?d \<noteq> []" by (auto simp: dropWhile_eq_Nil_conv)
  then have "hd ?d = CHR '' ''" using hd_dropWhile [of "\<lambda>c. c \<noteq> CHR '' ''" key] by simp
  with ne have "?d = CHR '' '' # tl ?d" by (cases ?d) simp_all
  then have "takeWhile (\<lambda>c. c \<noteq> CHR '' '') key @ '' '' @ tl ?d = key"
    using takeWhile_dropWhile_id [of "\<lambda>c. c \<noteq> CHR '' ''" key] by simp
  with True show ?thesis by (simp add: split1_def)
qed

lemma new_keys_length: "length (new_keys keys rs) = length keys"
  by (simp add: new_keys_def)

lemma new_keys_nth:
  "k < length keys \<Longrightarrow> new_keys keys rs ! k = new_key (blank_indexes keys) rs k (keys ! k)"
  by (simp add: new_keys_def)

lemma new_keys_unchanged:
  assumes "k < length keys" and "rs ! k = extract_numbering (keys ! k)"
  shows "new_keys keys rs ! k = keys ! k"
proof (cases "k \<in> set (blank_indexes keys)")
  case True
  with assms(1) show ?thesis by (simp add: new_keys_nth new_key_def)
next
  case False
  with assms(1) have "extract_numbering (keys ! k) \<noteq> []" by (simp add: blank_indexes_iff)
  then have "isdigit (remove_char CHR ''.'' (split1 (keys ! k) ! 0))"
    by (simp add: extract_numbering_blank_iff)
  then have "rs ! k = split1 (keys ! k) ! 0" using assms(2) by (simp add: extract_numbering_def)
  with False assms(1) split1_rejoin [of "keys ! k"] show ?thesis
    by (simp add: new_keys_nth new_key_def Let_def)
qed

lemma new_keys_blank:
  assumes "k < length keys" and "extract_numbering (keys ! k) = []"
  shows "new_keys keys rs ! k = keys ! k"
  using assms by (simp add: new_keys_nth new_key_def blank_indexes_iff)

lemma map_of_dict_set: "map_of (dict_set d k v) = (map_of d)(k \<mapsto> v)"
  by (induction d k v rule: dict_set.induct) auto

lemma map_of_fold_dict_set:
  "map_of (fold (\<lambda>(k, v) d. dict_set d k v) kvs d) = map_of d ++ map_of (rev kvs)"
proof (induction kvs arbitrary: d)
  case Nil
  then show ?case by simp
next
  case (Cons kv kvs)
  obtain k v where kv: "kv = (k, v)" by (cases kv)
  have "map_of (fold (\<lambda>(k, v) d. dict_set d k v) (kv # kvs) d)
      = map_of (dict_set d k v) ++ map_of (rev kvs)"
    using Cons.IH [of "dict_set d k v"] kv by simp
  also have "\<dots> = map_of d ++ map_of (rev (kv # kvs))"
    by (simp add: kv map_of_dict_set map_add_def fun_eq_iff split: option.splits)
  finally show ?case .
qed

lemma map_of_rev_last:
  assumes "k < length kvs"
    and "\<forall>j. k < j \<and> j < length kvs \<longrightarrow> fst (kvs ! j) \<noteq> fst (kvs ! k)"
  shows "map_of (rev kvs) (fst (kvs ! k)) = Some (snd (kvs ! k))"
  using assms
proof (induction kvs rule: rev_induct)
  case Nil
  then show ?case by simp
next
  case (snoc x kvs)
  show ?case
  proof (cases "k = length kvs")
    case True
    then show ?thesis by (cases x) simp
  next
    case False
    with snoc.prems(1) have k: "k < length kvs" by simp
    from snoc.prems(2) [rule_format, of "length kvs"] k
    have ne: "fst x \<noteq> fst (kvs ! k)" by (simp add: nth_append)
    have "\<forall>j. k < j \<and> j < length kvs \<longrightarrow> fst (kvs ! j) \<noteq> fst (kvs ! k)"
    proof (intro allI impI)
      fix j assume j: "k < j \<and> j < length kvs"
      with snoc.prems(2) [rule_format, of j] k show "fst (kvs ! j) \<noteq> fst (kvs ! k)"
        by (simp add: nth_append)
    qed
    from snoc.IH [OF k this] ne k show ?thesis
      by (cases x) (simp add: nth_append)
  qed
qed

lemma reconstructed_of_flags:
  "non_logical_indexes ns = Inr idxs \<Longrightarrow> reconstructed_numberings ns = reconstruct idxs ns"
  by (simp add: reconstructed_numberings_def)

text \<open>
  C10. A position of the numbering sequence is rewritten only when it is flagged and there
  is a non-blank numbering before it and one after it. A position with no non-blank
  numbering after it (a flagged last numbered title, for one) keeps its numbering, its key
  is written unchanged, and in the output of \<open>find_and_replace_numberings\<close> that key still
  holds the entry's value.
\<close>

theorem repair_only_between_neighbours:
  assumes flags: "non_logical_indexes (map extract_numbering (map fst data)) = Inr idxs"
    and recon: "reconstruct idxs (map extract_numbering (map fst data)) = Inr rs"
    and k: "k < length data"
  shows "(rs ! k \<noteq> extract_numbering (fst (data ! k)) \<longrightarrow>
            k \<in> set idxs
            \<and> (\<exists>i<k. extract_numbering (fst (data ! i)) \<noteq> [])
            \<and> (\<exists>j>k. j < length data \<and> extract_numbering (fst (data ! j)) \<noteq> []))
       \<and> ((\<forall>j. k < j \<and> j < length data \<longrightarrow> extract_numbering (fst (data ! j)) = []) \<longrightarrow>
            rs ! k = extract_numbering (fst (data ! k))
            \<and> new_keys (map fst data) rs ! k = fst (data ! k)
            \<and> (distinct (map fst data) \<longrightarrow>
                 (\<exists>out. find_and_replace_numberings data = Inr out
                        \<and> dict_get out (fst (data ! k)) = Some (snd (data ! k)))))"
proof -
  let ?keys = "map fst data"
  let ?ns = "map extract_numbering ?keys"
  have nth_ns: "?ns ! i = extract_numbering (fst (data ! i))" if "i < length data" for i
    using that by simp
  from reconstruct_invariant [OF recon non_logical_indexes_nonblank [OF flags]]
  have len: "length rs = length ?ns"
    and change: "\<forall>k<length ?ns. rs ! k \<noteq> ?ns ! k \<longrightarrow>
          k \<in> set idxs \<and> (\<exists>i<k. ?ns ! i \<noteq> []) \<and> (\<exists>j>k. j < length ?ns \<and> ?ns ! j \<noteq> [])"
    by blast+
  have only: "k \<in> set idxs
            \<and> (\<exists>i<k. extract_numbering (fst (data ! i)) \<noteq> [])
            \<and> (\<exists>j>k. j < length data \<and> extract_numbering (fst (data ! j)) \<noteq> [])"
    if ne: "rs ! k \<noteq> extract_numbering (fst (data ! k))"
  proof -
    from ne k have "rs ! k \<noteq> ?ns ! k" by simp
    with change k have kin: "k \<in> set idxs" and p: "\<exists>i<k. ?ns ! i \<noteq> []"
      and n: "\<exists>j>k. j < length ?ns \<and> ?ns ! j \<noteq> []" by simp_all
    from p obtain i where i: "i < k" "?ns ! i \<noteq> []" by blast
    with k have "extract_numbering (fst (data ! i)) \<noteq> []" by simp
    with i have p': "\<exists>i<k. extract_numbering (fst (data ! i)) \<noteq> []" by blast
    from n obtain j where j: "j > k" "j < length ?ns" "?ns ! j \<noteq> []" by blast
    then have "j < length data" "extract_numbering (fst (data ! j)) \<noteq> []" by simp_all
    with j have n': "\<exists>j>k. j < length data \<and> extract_numbering (fst (data ! j)) \<noteq> []" by blast
    from kin p' n' show ?thesis by simp
  qed
  have keep: "rs ! k = extract_numbering (fst (data ! k))
            \<and> new_keys (map fst data) rs ! k = fst (data ! k)
            \<and> (distinct (map fst data) \<longrightarrow>
                 (\<exists>out. find_and_replace_numberings data = Inr out
                        \<and> dict_get out (fst (data ! k)) = Some (snd (data ! k))))"
    if last: "\<forall>j. k < j \<and> j < length data \<longrightarrow> extract_numbering (fst (data ! j)) = []"
  proof -
    have same: "rs ! k = extract_numbering (fst (data ! k))"
    proof (rule ccontr)
      assume "rs ! k \<noteq> extract_numbering (fst (data ! k))"
      from only [OF this] last show False by blast
    qed
    have key: "new_keys ?keys rs ! k = fst (data ! k)"
      using new_keys_unchanged [of k ?keys rs] k same by simp
    have later: "new_keys ?keys rs ! j = fst (data ! j)" if "k < j" "j < length data" for j
      using new_keys_blank [of j ?keys rs] that last by simp
    have dict: "\<exists>out. find_and_replace_numberings data = Inr out
                        \<and> dict_get out (fst (data ! k)) = Some (snd (data ! k))"
      if dist: "distinct (map fst data)"
    proof -
      let ?kvs = "zip (new_keys ?keys rs) (map snd data)"
      let ?out = "fold (\<lambda>(k, v) updated_dict. dict_set updated_dict k v) ?kvs []"
      have res: "find_and_replace_numberings data = Inr ?out"
        using reconstructed_of_flags [OF flags] recon
        by (simp add: find_and_replace_numberings_def)
      have lk: "length ?kvs = length data" by (simp add: new_keys_length)
      have kv: "?kvs ! k = (fst (data ! k), snd (data ! k))"
        using k key by (simp add: new_keys_length)
      have "\<forall>j. k < j \<and> j < length ?kvs \<longrightarrow> fst (?kvs ! j) \<noteq> fst (?kvs ! k)"
      proof (intro allI impI)
        fix j assume j: "k < j \<and> j < length ?kvs"
        with lk have j': "k < j" "j < length data" by simp_all
        then have "fst (?kvs ! j) = fst (data ! j)" using later by (simp add: new_keys_length)
        moreover have "fst (data ! j) \<noteq> fst (data ! k)"
          using dist j' k nth_eq_iff_index_eq [of ?keys j k] by simp
        ultimately show "fst (?kvs ! j) \<noteq> fst (?kvs ! k)" using kv by simp
      qed
      from map_of_rev_last [of k ?kvs, OF _ this] k lk kv
      have "map_of (rev ?kvs) (fst (data ! k)) = Some (snd (data ! k))" by simp
      then have "dict_get ?out (fst (data ! k)) = Some (snd (data ! k))"
        by (simp add: dict_get_def map_of_fold_dict_set)
      with res show ?thesis by blast
    qed
    from same key dict show ?thesis by blast
  qed
  from only keep show ?thesis by blast
qed

lemma gap_renderings:
  "render_numbering [1, 3] = ''1.3.''" "render_numbering [1, 2] = ''1.2.''"
  by (simp_all add: render_numbering_def str_nat.simps digit_char_def)

lemma gap_sibling_candidate: "[1, 3] \<in> set (possibility_tokens [1, 1])"
  by (auto simp: possibility_tokens_def py_range_def)

lemma gap_numberings:
  "map extract_numbering [''1. Intro'', ''1.1. Background'', ''2.1. Oops'', ''1.3. More'']
     = [''1.'', ''1.1.'', ''2.1.'', ''1.3.'']"
  by (simp add: extract_numbering_def split1_def isdigit_def remove_char_def py_isdigit_char_def
      ascii_digit_def)

lemma gap_flagged: "non_logical_indexes [''1.'', ''1.1.'', ''2.1.'', ''1.3.''] = Inr [2]"
proof -
  let ?ns = "[''1.'', ''1.1.'', ''2.1.'', ''1.3.'']"
  obtain g where g: "generate_next_numberings ''1.'' = Inr g" and g_in: "''1.1.'' \<in> set g"
    using candidate_iff [of "[1]" "[1, 1]", unfolded scenario_renderings] scenario_child_candidate
    by auto
  obtain g' where g': "generate_next_numberings ''1.1.'' = Inr g'"
    and g'_out: "''2.1.'' \<notin> set g'" and g'_in: "''1.3.'' \<in> set g'"
    using candidate_iff [of "[1, 1]" "[2, 1]", unfolded scenario_renderings]
      candidate_iff [of "[1, 1]" "[1, 3]", unfolded scenario_renderings gap_renderings]
      scenario_jump_not_candidate gap_sibling_candidate
    by auto
  have first: "inner_scan ?ns ''1.'' 1 [] = Inr (Some 1, [])"
    using g g_in by (subst inner_scan.simps) (simp add: eval_nat_numeral)
  have "inner_scan ?ns ''1.1.'' 3 [2] = Inr (Some 3, [2])"
    using g' g'_in by (subst inner_scan.simps) (simp add: eval_nat_numeral)
  then have second: "inner_scan ?ns ''1.1.'' 2 [] = Inr (Some 3, [2])"
    using g' g'_out by (subst inner_scan.simps) (simp add: eval_nat_numeral)
  have "outer_scan ?ns 3 [2] = Inr [2]"
    by (subst outer_scan.simps) (simp add: eval_nat_numeral)
  then have "outer_scan ?ns 1 [] = Inr [2]"
    using second by (subst outer_scan.simps) (simp add: eval_nat_numeral)
  then have "outer_scan ?ns 0 [] = Inr [2]"
    using first by (subst outer_scan.simps) (simp add: eval_nat_numeral)
  then show ?thesis by (simp add: non_logical_indexes_def)
qed

lemma gap_reconstruct:
  "reconstruct [2] [''1.'', ''1.1.'', ''2.1.'', ''1.3.''] = Inr [''1.'', ''1.1.'', ''1.2.'', ''1.3.'']"
proof -
  have p: "parse_numbering ''1.1.'' = Inr [1, 1]" "parse_numbering ''1.3.'' = Inr [1, 3]"
    using parse_render [of "[1, 1]", unfolded scenario_renderings]
      parse_render [of "[1, 3]", unfolded gap_renderings]
    by simp_all
  have pv: "prev_valid [''1.'', ''1.1.'', ''2.1.'', ''1.3.''] 2 = Some ''1.1.''"
    by (simp add: prev_valid_def)
  have nv: "next_valid [''1.'', ''1.1.'', ''2.1.'', ''1.3.''] 2 = Some ''1.3.''"
    by (simp add: next_valid_def)
  have r: "render_numbering [Suc 0, Suc (Suc 0)] = ''1.2.''"
    using gap_renderings(2) by (simp add: numeral_2_eq_2)
  show ?thesis
    by (simp add: reconstruct_at_def pv nv truthy_def p r)
qed

theorem repair_only_between_neighbours_witness:
  "non_logical_indexes (map extract_numbering
       (map fst [(''1. Intro'', ''a''), (''1.1. Background'', ''b''), (''2.1. Oops'', ''c''),
                 (''1.3. More'', ''d'')])) = Inr [2]
   \<and> reconstruct [2] (map extract_numbering
       (map fst [(''1. Intro'', ''a''), (''1.1. Background'', ''b''), (''2.1. Oops'', ''c''),
                 (''1.3. More'', ''d'')])) = Inr [''1.'', ''1.1.'', ''1.2.'', ''1.3.'']
   \<and> (\<exists>j>2. j < length [(''1. Intro'', ''a''), (''1.1. Background'', ''b''),
           (''2.1. Oops'', ''c''), (''1.3. More'', ''d'')]
         \<and> extract_numbering (fst ([(''1. Intro'', ''a''), (''1.1. Background'', ''b''),
           (''2.1. Oops'', ''c''), (''1.3. More'', ''d'')] ! j)) \<noteq> [])
   \<and> non_logical_indexes (map extract_numbering
       (map fst [(''1. Intro'', ''a''), (''1.1. Background'', ''b''), (''2.1. Oops'', ''c'')])) = Inr [2]
   \<and> (\<exists>out. find_and_replace_numberings
           [(''1. Intro'', ''a''), (''1.1. Background'', ''b''), (''2.1. Oops'', ''c'')] = Inr out
         \<and> dict_get out ''2.1. Oops'' = Some ''c'')"
proof -
  let ?gap = "[(''1. Intro'', ''a''), (''1.1. Background'', ''b''), (''2.1. Oops'', ''c''),
               (''1.3. More'', ''d'')]"
  let ?last = "[(''1. Intro'', ''a''), (''1.1. Background'', ''b''), (''2.1. Oops'', ''c'')]"
  have gn: "map extract_numbering (map fst ?gap) = [''1.'', ''1.1.'', ''2.1.'', ''1.3.'']"
    using gap_numberings by simp
  have ln: "map extract_numbering (map fst ?last) = [''1.'', ''1.1.'', ''2.1.'']"
    using scenario_numberings by simp
  have gf: "non_logical_indexes (map extract_numbering (map fst ?gap)) = Inr [2]"
    by (simp only: gn gap_flagged)
  have gr: "reconstruct [2] (map extract_numbering (map fst ?gap))
      = Inr [''1.'', ''1.1.'', ''1.2.'', ''1.3.'']"
    by (simp only: gn gap_reconstruct)
  have lf: "non_logical_indexes (map extract_numbering (map fst ?last)) = Inr [2]"
    by (simp only: ln scenario_flagged)
  have "reconstruct [2] [''1.'', ''1.1.'', ''2.1.''] = Inr [''1.'', ''1.1.'', ''2.1.'']"
    by (simp add: reconstruct_at_def scenario_no_successor truthy_def)
  then have lr: "reconstruct [2] (map extract_numbering (map fst ?last))
      = Inr [''1.'', ''1.1.'', ''2.1.'']"
    by (simp only: ln)
  have e2: "extract_numbering ''2.1. Oops'' = ''2.1.''"
    using scenario_numberings by simp
  have a: "\<exists>j>2. j < length ?gap \<and> extract_numbering (fst (?gap ! j)) \<noteq> []"
    using repair_only_between_neighbours [OF gf gr, of 2] by (simp add: e2)
  have b: "\<exists>out. find_and_replace_numberings ?last = Inr out
         \<and> dict_get out ''2.1. Oops'' = Some ''c''"
  proof -
    have k: "2 < length ?last" by simp
    have vac: "\<forall>j. 2 < j \<and> j < length ?last \<longrightarrow> extract_numbering (fst (?last ! j)) = []"
      by auto
    have dist: "distinct (map fst ?last)" by simp
    from repair_only_between_neighbours [OF lf lr k, THEN conjunct2, THEN mp, OF vac,
        THEN conjunct2, THEN conjunct2, THEN mp, OF dist]
    show ?thesis by simp
  qed
  from gf gr a lf b show ?thesis by blast
qed

section \<open>Properties of the Boundary Refiner\<close>

lemma refine_text_short:
  assumes "length (strip (remove_numbering_runs (cut_title title text))) \<le> 50"
  shows "refine_text title text = []"
proof (cases "numbering_prefix title")
  case None
  with assms show ?thesis by (simp add: refine_text_def Let_def)
next
  case (Some numbering)
  have "\<not> startswith [] (numbering @ '' '' @ strip (remove_numbering_runs title))"
    by (simp add: startswith_def)
  with Some assms show ?thesis by (simp add: refine_text_def Let_def)
qed

lemma map_of_rev_distinct:
  "distinct (map fst kvs) \<Longrightarrow> map_of (rev kvs) = map_of kvs"
  by (rule map_of_inject_set [THEN iffD2]) (simp_all add: distinct_rev rev_map [symmetric])

lemma fold_dict_set_map:
  "fold (\<lambda>(k, x) acc. dict_set acc k (f k x)) d acc0
     = fold (\<lambda>(k, v) acc. dict_set acc k v) (map (\<lambda>(k, x). (k, f k x)) d) acc0"
  by (induction d arbitrary: acc0) auto

lemma refine_lookup:
  assumes "distinct (map fst d)" and "(title, text) \<in> set d"
  shows "dict_get (refine_extracted_sections d) title = Some (refine_text title text)"
proof -
  let ?kvs = "map (\<lambda>(t, x). (t, refine_text t x)) d"
  have "refine_extracted_sections d = fold (\<lambda>(k, v) acc. dict_set acc k v) ?kvs []"
    unfolding refine_extracted_sections_def by (rule fold_dict_set_map)
  then have "map_of (refine_extracted_sections d) = map_of (rev ?kvs)"
    by (simp add: map_of_fold_dict_set)
  moreover have keys: "map fst ?kvs = map fst d" by (induction d) auto
  then have dk: "distinct (map fst ?kvs)" using assms(1) by (simp only:)
  then have "map_of (rev ?kvs) = map_of ?kvs" by (rule map_of_rev_distinct)
  ultimately have "map_of (refine_extracted_sections d) = map_of ?kvs" by simp
  moreover have "(title, refine_text title text) \<in> set ?kvs" using assms(2) by force
  then have "map_of ?kvs title = Some (refine_text title text)"
    by (rule map_of_is_SomeI [OF dk])
  ultimately show ?thesis by (simp add: dict_get_def)
qed


text \<open>
  C9 (amended). For every entry of the mapping given to \<open>refine_extracted_sections\<close> (a
  dict, so its keys are distinct): if the body, after a leading copy of the title has been
  cut off and the rest trimmed, is at most 50 characters long once every digit run with the
  dots and whitespace that follow it is removed and the result trimmed, then the refined
  body of that title is the empty string.
\<close>

theorem short_body_is_blanked:
  assumes "distinct (map fst extracted_sections)"
    and "(title, text) \<in> set extracted_sections"
    and "length (strip (remove_numbering_runs (cut_title title text))) \<le> 50"
  shows "dict_get (refine_extracted_sections extracted_sections) title = Some []"
  using refine_lookup [OF assms(1,2)] refine_text_short [OF assms(3)] by simp

theorem short_body_is_blanked_witness:
  "length (strip (remove_numbering_runs (cut_title ''1. Scope'' ''1. Scope see 2.1.''))) \<le> 50
   \<and> dict_get (refine_extracted_sections
         [(''1. Scope'', ''1. Scope see 2.1.''), (''Annex'', ''none'')]) ''1. Scope'' = Some []"
proof -
  have short: "length (strip (remove_numbering_runs (cut_title ''1. Scope'' ''1. Scope see 2.1.''))) \<le> 50"
    by (simp add: cut_title_def startswith_def strip_def strip_chars_def py_isspace_def
        ascii_digit_def dot_or_space_def)
  have "distinct (map fst [(''1. Scope'', ''1. Scope see 2.1.''), (''Annex'', ''none'')])"
    by simp
  from short_body_is_blanked [OF this _ short] short show ?thesis by simp
qed

text \<open>
  C9 as stated fails: the length test is made after the title is cut off, and the cut can
  separate a digit of the title from the dots that follow it. The body below is 7 characters
  long with its digit-and-dot runs removed, and its refined body is the 60 dots.
\<close>

theorem short_after_removal_counterexample:
  "length (strip (remove_numbering_runs
       ''Section 1............................................................'')) \<le> 50
   \<and> dict_get (refine_extracted_sections
         [(''Section 1'',
           ''Section 1............................................................'')])
       ''Section 1''
     = Some ''............................................................''"
  by (simp add: refine_extracted_sections_def refine_text_def cut_title_def startswith_def
      strip_def strip_chars_def py_isspace_def ascii_digit_def dot_or_space_def
      numbering_prefix_def dict_get_def)


lemma section_text_unrefined:
  assumes "py_find (dict_get_default processed_text (titles ! i) []) (modified_title (titles ! i)) 0 = - 1"
    and "py_find (dict_get_default processed_text (titles ! i) []) (titles ! i) 0 = - 1"
    and "py_find (dict_get_default processed_text (titles ! i) [])
           (strip_leading_numbering (titles ! i)) 0 = - 1"
  shows "section_text titles processed_text i = dict_get_default processed_text (titles ! i) []"
  using assms by (simp add: section_text_def section_start_def Let_def)

lemma map_of_all_same:
  assumes "k \<in> fst ` set kvs" and "\<forall>v. (k, v) \<in> set kvs \<longrightarrow> v = b"
  shows "map_of kvs k = Some b"
proof -
  from assms(1) obtain v where "map_of kvs k = Some v"
    by (cases "map_of kvs k") (auto simp: map_of_eq_None_iff)
  moreover from this have "(k, v) \<in> set kvs" by (rule map_of_SomeD)
  ultimately show ?thesis using assms(2) by simp
qed

lemma fold_dict_set_index:
  "fold (\<lambda>i acc. dict_set acc (key i) (val i)) is acc0
     = fold (\<lambda>(k, v) acc. dict_set acc k v) (map (\<lambda>i. (key i, val i)) is) acc0"
  by (induction "is" arbitrary: acc0) auto

lemma py_find_none_iff:
  "py_find text sub 0 = - 1 \<longleftrightarrow> \<not> (\<exists>pre post. text = pre @ sub @ post)"
proof
  assume none: "py_find text sub 0 = - 1"
  show "\<not> (\<exists>pre post. text = pre @ sub @ post)"
  proof
    assume "\<exists>pre post. text = pre @ sub @ post"
    then obtain pre post where t: "text = pre @ sub @ post" by blast
    then have "length pre \<in> set [0 ..< Suc (length text) - length sub]" by simp
    moreover have "take (length sub) (drop (length pre) text) = sub" using t by simp
    ultimately have "find (\<lambda>i. take (length sub) (drop i text) = sub)
        [0 ..< Suc (length text) - length sub] \<noteq> None"
      unfolding find_None_iff by blast
    with none show False by (auto simp: py_find_def split: option.splits)
  qed
next
  assume no: "\<not> (\<exists>pre post. text = pre @ sub @ post)"
  have "find (\<lambda>i. take (length sub) (drop i text) = sub) [0 ..< Suc (length text) - length sub] = None"
    unfolding find_None_iff
  proof
    assume "\<exists>i. i \<in> set [0 ..< Suc (length text) - length sub]
        \<and> take (length sub) (drop i text) = sub"
    then obtain i where "take (length sub) (drop i text) = sub" by blast
    then have "text = take i text @ sub @ drop (length sub) (drop i text)"
      by (metis append_take_drop_id)
    with no show False by blast
  qed
  then show "py_find text sub 0 = - 1" by (simp add: py_find_def)
qed


text \<open>
  C2. For every title given to the Boundary Refiner: if neither the title's search key, nor
  the raw title, nor the title without its leading numbering occurs in the body text
  assigned to the title, then the refined body is that body, unchanged; in particular a
  non-empty body is not mapped to the empty string.
\<close>

theorem failed_search_keeps_body:
  assumes "title \<in> set titles"
    and "body = dict_get_default processed_text title []"
    and "\<not> (\<exists>pre post. body = pre @ modified_title title @ post)"
    and "\<not> (\<exists>pre post. body = pre @ title @ post)"
    and "\<not> (\<exists>pre post. body = pre @ strip_leading_numbering title @ post)"
  shows "dict_get (extract_sections_from_processed_text titles processed_text) title = Some body
         \<and> (body \<noteq> [] \<longrightarrow>
              dict_get (extract_sections_from_processed_text titles processed_text) title \<noteq> Some [])"
proof -
  let ?kvs = "map (\<lambda>i. (titles ! i, section_text titles processed_text i)) [0 ..< length titles]"
  have same: "section_text titles processed_text i = body" if "titles ! i = title" for i
    using section_text_unrefined [of processed_text titles i] assms(2-5) that
    by (simp add: py_find_none_iff)
  have "extract_sections_from_processed_text titles processed_text
      = fold (\<lambda>(k, v) acc. dict_set acc k v) ?kvs []"
    unfolding extract_sections_from_processed_text_def by (rule fold_dict_set_index)
  then have m: "map_of (extract_sections_from_processed_text titles processed_text)
      = map_of (rev ?kvs)"
    by (simp add: map_of_fold_dict_set)
  from assms(1) obtain i where i: "i < length titles" "titles ! i = title"
    by (auto simp: in_set_conv_nth)
  then have "(title, section_text titles processed_text i) \<in> set ?kvs" by force
  then have "title \<in> fst ` set (rev ?kvs)" by force
  moreover have "\<forall>v. (title, v) \<in> set (rev ?kvs) \<longrightarrow> v = body"
    using same by auto
  ultimately have "map_of (rev ?kvs) title = Some body" by (rule map_of_all_same)
  with m show ?thesis by (simp add: dict_get_def)
qed

lemma intro_key: "modified_title ''1. Intro'' = ''Intro''"
  by (simp add: modified_title_def matches_depth3_spaced_def matches_depth_def digits_dot_def
      ascii_digit_def any_char_follows_def newline_def strip_leading_numbering_def py_isspace_def
      eval_nat_numeral)

lemma intro_stripped: "strip_leading_numbering ''1. Intro'' = ''Intro''"
  by (simp add: digits_dot_def ascii_digit_def strip_leading_numbering_def py_isspace_def)

theorem failed_search_keeps_body_witness:
  "py_find ''some body text'' ''Intro'' 0 = - 1 \<and> py_find ''some body text'' ''1. Intro'' 0 = - 1
   \<and> dict_get (extract_sections_from_processed_text [''1. Intro'', ''2. Methods'']
         [(''1. Intro'', ''some body text''), (''2. Methods'', ''other text'')]) ''1. Intro''
       = Some ''some body text''"
proof -
  have a: "py_find ''some body text'' ''Intro'' 0 = - 1"
    and b: "py_find ''some body text'' ''1. Intro'' 0 = - 1"
    by (simp_all add: py_find_def upt_rec)
  have body: "''some body text'' = dict_get_default
      [(''1. Intro'', ''some body text''), (''2. Methods'', ''other text'')] ''1. Intro'' []"
    by (simp add: dict_get_default_def)
  have "''1. Intro'' \<in> set [''1. Intro'', ''2. Methods'']" by simp
  from failed_search_keeps_body [OF this body] a b
  show ?thesis by (simp add: py_find_none_iff intro_key intro_stripped)
qed

section \<open>Properties of the Title Variation Generator\<close>

lemma fold_snoc_map: "fold (\<lambda>x acc. acc @ [f x]) xs acc = acc @ map f xs"
  by (induction xs arbitrary: acc) auto

lemma fold_append_concat: "fold (\<lambda>x acc. acc @ h x) xs acc = acc @ concat (map h xs)"
  by (induction xs arbitrary: acc) auto

lemma fold_fold_snoc:
  "fold (\<lambda>v. fold (\<lambda>d acc. acc @ [g d v]) ds) xs acc
     = acc @ concat (map (\<lambda>v. map (\<lambda>d. g d v) ds) xs)"
  by (induction xs arbitrary: acc) (simp_all add: fold_snoc_map)

lemma spacing_variations_map:
  "spacing_variations words = map (new_title words) (product_bools (length words - 1))"
  by (simp add: spacing_variations_def fold_snoc_map)

lemma numbered_variations_concat:
  "numbered_variations vs = vs @ concat (map (\<lambda>v. map (\<lambda>d.
      numbering_regex d @ (bslash # ''s*'') @ re_escape v) [1, 2, 3, 4]) vs)"
proof -
  have r: "py_range 1 5 = [1, 2, 3, 4]" by (simp add: py_range_def upt_rec)
  show ?thesis
    unfolding numbered_variations_def r
    by (rule fold_fold_snoc)
qed

lemma length_product_bools: "length (product_bools n) = 2 ^ n"
  by (induction n) (simp_all add: length_concat)

lemma set_product_bools: "set (product_bools n) = {c. length c = n}"
proof (induction n)
  case 0
  then show ?case by auto
next
  case (Suc n)
  have "{c :: bool list. length c = Suc n} = (\<Union>b \<in> {True, False}. (#) b ` {c. length c = n})"
    by (auto simp: length_Suc_conv)
  with Suc show ?case by auto
qed

lemma distinct_product_bools: "distinct (product_bools n)"
  by (induction n) (auto simp: distinct_map)

lemma hd_product_bools: "product_bools n ! 0 = replicate n True"
  by (induction n) (simp_all add: nth_append length_product_bools)


lemma new_title_fold:
  "m + length comb < length words \<Longrightarrow>
   fold (\<lambda>(i, keep_space) new_title.
           new_title @ (if keep_space then '' '' else []) @ words ! (i + 1))
     (enumerate m comb) acc
   = acc @ concat (map (\<lambda>(keep_space, w). (if keep_space then '' '' else []) @ w)
                    (zip comb (drop (m + 1) words)))"
proof (induction comb arbitrary: m acc)
  case Nil
  then show ?case by simp
next
  case (Cons k ks)
  from Cons.prems have lt: "Suc m < length words" by simp
  then have d: "drop (Suc m) words = words ! Suc m # drop (Suc (Suc m)) words"
    by (simp add: Cons_nth_drop_Suc)
  from Cons.prems have "Suc m + length ks < length words" by simp
  from Cons.IH [OF this] show ?case by (simp add: d)
qed

lemma new_title_choices:
  assumes "words \<noteq> []" and "length comb = length words - 1"
  shows "new_title words comb
     = hd words @ concat (map (\<lambda>(keep_space, w). (if keep_space then '' '' else []) @ w)
                            (zip comb (tl words)))"
proof -
  from assms have "0 + length comb < length words" by (cases words) simp_all
  from new_title_fold [OF this, of "words ! 0"] assms(1) show ?thesis
    by (simp add: new_title_def hd_conv_nth drop_Suc)
qed

lemma join_cons: "join sep (w # ws) = w @ concat (map (\<lambda>v. sep @ v) ws)"
  by (induction sep "w # ws" arbitrary: w ws rule: join.induct) simp_all

lemma new_title_all_spaces:
  assumes "words \<noteq> []"
  shows "new_title words (replicate (length words - 1) True) = join '' '' words"
proof -
  obtain w ws where words: "words = w # ws" using assms by (cases words) auto
  have "zip (replicate (length ws) True) ws = map (\<lambda>v. (True, v)) ws"
    by (induction ws) simp_all
  then show ?thesis
    using new_title_choices [of words "replicate (length words - 1) True"]
    by (simp add: words join_cons comp_def)
qed

lemma numbering_regex_levels:
  "numbering_regex 1 = CHR 0x5C # ''d+''"
  "numbering_regex 2 = CHR 0x5C # ''d+.'' @ CHR 0x5C # ''d+''"
  "numbering_regex 3 = CHR 0x5C # ''d+.'' @ CHR 0x5C # ''d+.'' @ CHR 0x5C # ''d+''"
  "numbering_regex 4 = CHR 0x5C # ''d+.'' @ CHR 0x5C # ''d+.'' @ CHR 0x5C # ''d+.'' @ CHR 0x5C # ''d+''"
  by (simp_all add: numbering_regex_def bslash_def eval_nat_numeral)

lemma re_escape_chars:
  "re_escape v = concat (map (\<lambda>c. if c \<in> set (''()[]{}?*+-|^$'' @ [CHR 0x5C] @ ''.&~# ''
                                    @ [CHR 0x09, CHR 0x0A, CHR 0x0D, CHR 0x0B, CHR 0x0C])
                        then [CHR 0x5C, c] else [c]) v)"
  by (simp only: re_escape_def bslash_def)

text \<open>
  C8. For every title of W \<ge> 1 whitespace-separated words the generator returns 5 * 2^(W-1)
  variants. The first 2^(W-1) are the spacing variants, one for each keep/drop choice of the
  W-1 spaces between the words (the choices are all the boolean lists of length W-1, each
  once), the first of them the title with one space between the words. The rest are, for each
  spacing variant in turn, four variants: the placeholder of one to four \<open>\d+\<close> levels joined by
  a plain dot, then \<open>\s*\<close>, then the spacing variant with a backslash before each character that
  \<open>re.escape\<close> escapes. The strings are written out character by character, the backslash as
  \<open>CHR 0x5C\<close>.
\<close>

theorem title_variations_shape:
  assumes "py_split title \<noteq> []"
  shows "\<exists>vs. generate_title_variations title = Inr vs
     \<and> length vs = 5 * 2 ^ (length (py_split title) - 1)
     \<and> take (2 ^ (length (py_split title) - 1)) vs
         = map (\<lambda>comb. hd (py_split title)
                   @ concat (map (\<lambda>(keep_space, w). (if keep_space then '' '' else []) @ w)
                               (zip comb (tl (py_split title)))))
             (product_bools (length (py_split title) - 1))
     \<and> set (product_bools (length (py_split title) - 1))
         = {comb. length comb = length (py_split title) - 1}
     \<and> distinct (product_bools (length (py_split title) - 1))
     \<and> vs ! 0 = hd (py_split title) @ concat (map (\<lambda>w. '' '' @ w) (tl (py_split title)))
     \<and> drop (2 ^ (length (py_split title) - 1)) vs
         = concat (map (\<lambda>v.
             [CHR 0x5C # ''d+'' @ CHR 0x5C # ''s*''
                @ concat (map (\<lambda>c. if c \<in> set (''()[]{}?*+-|^$'' @ [CHR 0x5C] @ ''.&~# ''
                                    @ [CHR 0x09, CHR 0x0A, CHR 0x0D, CHR 0x0B, CHR 0x0C])
                        then [CHR 0x5C, c] else [c]) v),
              CHR 0x5C # ''d+.'' @ CHR 0x5C # ''d+'' @ CHR 0x5C # ''s*''
                @ concat (map (\<lambda>c. if c \<in> set (''()[]{}?*+-|^$'' @ [CHR 0x5C] @ ''.&~# ''
                                    @ [CHR 0x09, CHR 0x0A, CHR 0x0D, CHR 0x0B, CHR 0x0C])
                        then [CHR 0x5C, c] else [c]) v),
              CHR 0x5C # ''d+.'' @ CHR 0x5C # ''d+.'' @ CHR 0x5C # ''d+'' @ CHR 0x5C # ''s*''
                @ concat (map (\<lambda>c. if c \<in> set (''()[]{}?*+-|^$'' @ [CHR 0x5C] @ ''.&~# ''
                                    @ [CHR 0x09, CHR 0x0A, CHR 0x0D, CHR 0x0B, CHR 0x0C])
                        then [CHR 0x5C, c] else [c]) v),
              CHR 0x5C # ''d+.'' @ CHR 0x5C # ''d+.'' @ CHR 0x5C # ''d+.'' @ CHR 0x5C # ''d+''
                @ CHR 0x5C # ''s*''
                @ concat (map (\<lambda>c. if c \<in> set (''()[]{}?*+-|^$'' @ [CHR 0x5C] @ ''.&~# ''
                                    @ [CHR 0x09, CHR 0x0A, CHR 0x0D, CHR 0x0B, CHR 0x0C])
                        then [CHR 0x5C, c] else [c]) v)])
           (take (2 ^ (length (py_split title) - 1)) vs))"
proof -
  let ?words = "py_split title"
  let ?n = "length ?words - 1"
  let ?sp = "spacing_variations ?words"
  let ?esc = "\<lambda>v. concat (map (\<lambda>c. if c \<in> set (''()[]{}?*+-|^$'' @ [CHR 0x5C] @ ''.&~# ''
                                    @ [CHR 0x09, CHR 0x0A, CHR 0x0D, CHR 0x0B, CHR 0x0C])
                        then [CHR 0x5C, c] else [c]) v)"
  let ?four = "\<lambda>v.
             [CHR 0x5C # ''d+'' @ CHR 0x5C # ''s*'' @ ?esc v,
              CHR 0x5C # ''d+.'' @ CHR 0x5C # ''d+'' @ CHR 0x5C # ''s*'' @ ?esc v,
              CHR 0x5C # ''d+.'' @ CHR 0x5C # ''d+.'' @ CHR 0x5C # ''d+'' @ CHR 0x5C # ''s*'' @ ?esc v,
              CHR 0x5C # ''d+.'' @ CHR 0x5C # ''d+.'' @ CHR 0x5C # ''d+.'' @ CHR 0x5C # ''d+''
                @ CHR 0x5C # ''s*'' @ ?esc v]"
  let ?num = "concat (map ?four ?sp)"
  let ?vs = "?sp @ ?num"
  have four: "map (\<lambda>d. numbering_regex d @ (bslash # ''s*'') @ re_escape v) [1, 2, 3, 4] = ?four v"
    for v
    by (simp only: list.map numbering_regex_levels re_escape_chars bslash_def) simp
  have gen: "generate_title_variations title = Inr ?vs"
    using assms
    by (simp only: generate_title_variations_def numbered_variations_concat Let_def if_False four)
  have len_sp: "length ?sp = 2 ^ ?n"
    by (simp add: spacing_variations_map length_product_bools)
  have len_num: "length ?num = 4 * length ?sp"
    by (simp add: length_concat comp_def sum_list_triv)
  have len: "length ?vs = 5 * 2 ^ ?n" using len_sp len_num by simp
  have tk: "take (2 ^ ?n) ?vs = ?sp" using len_sp by simp
  have dr: "drop (2 ^ ?n) ?vs = ?num" using len_sp by simp
  have sp: "?sp = map (\<lambda>comb. hd ?words
                   @ concat (map (\<lambda>(keep_space, w). (if keep_space then '' '' else []) @ w)
                               (zip comb (tl ?words))))
             (product_bools ?n)"
    unfolding spacing_variations_map
  proof (rule map_cong [OF refl])
    fix comb assume "comb \<in> set (product_bools ?n)"
    then have "length comb = ?n" by (simp add: set_product_bools)
    with assms show "new_title ?words comb = hd ?words
        @ concat (map (\<lambda>(keep_space, w). (if keep_space then '' '' else []) @ w)
                    (zip comb (tl ?words)))"
      by (rule new_title_choices)
  qed
  have "?sp ! 0 = new_title ?words (product_bools ?n ! 0)"
    by (simp add: spacing_variations_map length_product_bools)
  then have "?vs ! 0 = join '' '' ?words"
    using len_sp new_title_all_spaces [OF assms] by (simp add: nth_append hd_product_bools)
  moreover have "join '' '' ?words = hd ?words @ concat (map (\<lambda>w. '' '' @ w) (tl ?words))"
    using assms join_cons [of "'' ''" "hd ?words" "tl ?words"] by simp
  ultimately have first: "?vs ! 0 = hd ?words @ concat (map (\<lambda>w. '' '' @ w) (tl ?words))"
    by simp
  show ?thesis
  proof (intro exI [of _ ?vs] conjI)
    show "generate_title_variations title = Inr ?vs" by (rule gen)
    show "length ?vs = 5 * 2 ^ ?n" by (rule len)
    show "take (2 ^ ?n) ?vs = map (\<lambda>comb. hd ?words
                   @ concat (map (\<lambda>(keep_space, w). (if keep_space then '' '' else []) @ w)
                               (zip comb (tl ?words))))
             (product_bools ?n)"
      unfolding tk by (rule sp)
    show "set (product_bools ?n) = {comb. length comb = ?n}" by (rule set_product_bools)
    show "distinct (product_bools ?n)" by (rule distinct_product_bools)
    show "?vs ! 0 = hd ?words @ concat (map (\<lambda>w. '' '' @ w) (tl ?words))" by (rule first)
    show "drop (2 ^ ?n) ?vs = concat (map ?four (take (2 ^ ?n) ?vs))"
      unfolding tk dr ..
  qed
qed


theorem title_variations_shape_witness:
  "py_split ''Annex  A.1'' = [''Annex'', ''A.1'']
   \<and> generate_title_variations ''Annex  A.1''
     = Inr [''Annex A.1'',
            ''AnnexA.1'',
            CHR 0x5C # ''d+'' @ CHR 0x5C # ''s*Annex'' @ CHR 0x5C # '' A'' @ CHR 0x5C # ''.1'',
            CHR 0x5C # ''d+.'' @ CHR 0x5C # ''d+'' @ CHR 0x5C # ''s*Annex'' @ CHR 0x5C # '' A'' @ CHR 0x5C # ''.1'',
            CHR 0x5C # ''d+.'' @ CHR 0x5C # ''d+.'' @ CHR 0x5C # ''d+'' @ CHR 0x5C # ''s*Annex'' @ CHR 0x5C # '' A'' @ CHR 0x5C # ''.1'',
            CHR 0x5C # ''d+.'' @ CHR 0x5C # ''d+.'' @ CHR 0x5C # ''d+.'' @ CHR 0x5C # ''d+'' @ CHR 0x5C # ''s*Annex'' @ CHR 0x5C # '' A'' @ CHR 0x5C # ''.1'',
            CHR 0x5C # ''d+'' @ CHR 0x5C # ''s*AnnexA'' @ CHR 0x5C # ''.1'',
            CHR 0x5C # ''d+.'' @ CHR 0x5C # ''d+'' @ CHR 0x5C # ''s*AnnexA'' @ CHR 0x5C # ''.1'',
            CHR 0x5C # ''d+.'' @ CHR 0x5C # ''d+.'' @ CHR 0x5C # ''d+'' @ CHR 0x5C # ''s*AnnexA'' @ CHR 0x5C # ''.1'',
            CHR 0x5C # ''d+.'' @ CHR 0x5C # ''d+.'' @ CHR 0x5C # ''d+.'' @ CHR 0x5C # ''d+'' @ CHR 0x5C # ''s*AnnexA'' @ CHR 0x5C # ''.1'']"
proof -
  have ps: "py_split ''Annex  A.1'' = [''Annex'', ''A.1'']"
    by (simp add: py_split_def py_isspace_def)
  then have ne: "py_split ''Annex  A.1'' \<noteq> []" by simp
  from title_variations_shape [OF ne]
  obtain vs where g: "generate_title_variations ''Annex  A.1'' = Inr vs"
    and t: "take (2 ^ (length (py_split ''Annex  A.1'') - 1)) vs
         = map (\<lambda>comb. hd (py_split ''Annex  A.1'')
                   @ concat (map (\<lambda>(keep_space, w). (if keep_space then '' '' else []) @ w)
                               (zip comb (tl (py_split ''Annex  A.1'')))))
             (product_bools (length (py_split ''Annex  A.1'') - 1))"
    and d: "drop (2 ^ (length (py_split ''Annex  A.1'') - 1)) vs
         = concat (map (\<lambda>v.
             [CHR 0x5C # ''d+'' @ CHR 0x5C # ''s*''
                @ concat (map (\<lambda>c. if c \<in> set (''()[]{}?*+-|^$'' @ [CHR 0x5C] @ ''.&~# ''
                                    @ [CHR 0x09, CHR 0x0A, CHR 0x0D, CHR 0x0B, CHR 0x0C])
                        then [CHR 0x5C, c] else [c]) v),
              CHR 0x5C # ''d+.'' @ CHR 0x5C # ''d+'' @ CHR 0x5C # ''s*''
                @ concat (map (\<lambda>c. if c \<in> set (''()[]{}?*+-|^$'' @ [CHR 0x5C] @ ''.&~# ''
                                    @ [CHR 0x09, CHR 0x0A, CHR 0x0D, CHR 0x0B, CHR 0x0C])
                        then [CHR 0x5C, c] else [c]) v),
              CHR 0x5C # ''d+.'' @ CHR 0x5C # ''d+.'' @ CHR 0x5C # ''d+'' @ CHR 0x5C # ''s*''
                @ concat (map (\<lambda>c. if c \<in> set (''()[]{}?*+-|^$'' @ [CHR 0x5C] @ ''.&~# ''
                                    @ [CHR 0x09, CHR 0x0A, CHR 0x0D, CHR 0x0B, CHR 0x0C])
                        then [CHR 0x5C, c] else [c]) v),
              CHR 0x5C # ''d+.'' @ CHR 0x5C # ''d+.'' @ CHR 0x5C # ''d+.'' @ CHR 0x5C # ''d+''
                @ CHR 0x5C # ''s*''
                @ concat (map (\<lambda>c. if c \<in> set (''()[]{}?*+-|^$'' @ [CHR 0x5C] @ ''.&~# ''
                                    @ [CHR 0x09, CHR 0x0A, CHR 0x0D, CHR 0x0B, CHR 0x0C])
                        then [CHR 0x5C, c] else [c]) v)])
           (take (2 ^ (length (py_split ''Annex  A.1'') - 1)) vs))"
    by blast
  have t': "take 2 vs = [''Annex A.1'', ''AnnexA.1'']" using t by (simp add: ps)
  have d': "drop 2 vs = drop 2 [''Annex A.1'',
            ''AnnexA.1'',
            CHR 0x5C # ''d+'' @ CHR 0x5C # ''s*Annex'' @ CHR 0x5C # '' A'' @ CHR 0x5C # ''.1'',
            CHR 0x5C # ''d+.'' @ CHR 0x5C # ''d+'' @ CHR 0x5C # ''s*Annex'' @ CHR 0x5C # '' A'' @ CHR 0x5C # ''.1'',
            CHR 0x5C # ''d+.'' @ CHR 0x5C # ''d+.'' @ CHR 0x5C # ''d+'' @ CHR 0x5C # ''s*Annex'' @ CHR 0x5C # '' A'' @ CHR 0x5C # ''.1'',
            CHR 0x5C # ''d+.'' @ CHR 0x5C # ''d+.'' @ CHR 0x5C # ''d+.'' @ CHR 0x5C # ''d+'' @ CHR 0x5C # ''s*Annex'' @ CHR 0x5C # '' A'' @ CHR 0x5C # ''.1'',
            CHR 0x5C # ''d+'' @ CHR 0x5C # ''s*AnnexA'' @ CHR 0x5C # ''.1'',
            CHR 0x5C # ''d+.'' @ CHR 0x5C # ''d+'' @ CHR 0x5C # ''s*AnnexA'' @ CHR 0x5C # ''.1'',
            CHR 0x5C # ''d+.'' @ CHR 0x5C # ''d+.'' @ CHR 0x5C # ''d+'' @ CHR 0x5C # ''s*AnnexA'' @ CHR 0x5C # ''.1'',
            CHR 0x5C # ''d+.'' @ CHR 0x5C # ''d+.'' @ CHR 0x5C # ''d+.'' @ CHR 0x5C # ''d+'' @ CHR 0x5C # ''s*AnnexA'' @ CHR 0x5C # ''.1'']"
    using d by (simp add: ps t')
  have "vs = take 2 vs @ drop 2 vs" by simp
  then have "vs = [''Annex A.1'',
            ''AnnexA.1'',
            CHR 0x5C # ''d+'' @ CHR 0x5C # ''s*Annex'' @ CHR 0x5C # '' A'' @ CHR 0x5C # ''.1'',
            CHR 0x5C # ''d+.'' @ CHR 0x5C # ''d+'' @ CHR 0x5C # ''s*Annex'' @ CHR 0x5C # '' A'' @ CHR 0x5C # ''.1'',
            CHR 0x5C # ''d+.'' @ CHR 0x5C # ''d+.'' @ CHR 0x5C # ''d+'' @ CHR 0x5C # ''s*Annex'' @ CHR 0x5C # '' A'' @ CHR 0x5C # ''.1'',
            CHR 0x5C # ''d+.'' @ CHR 0x5C # ''d+.'' @ CHR 0x5C # ''d+.'' @ CHR 0x5C # ''d+'' @ CHR 0x5C # ''s*Annex'' @ CHR 0x5C # '' A'' @ CHR 0x5C # ''.1'',
            CHR 0x5C # ''d+'' @ CHR 0x5C # ''s*AnnexA'' @ CHR 0x5C # ''.1'',
            CHR 0x5C # ''d+.'' @ CHR 0x5C # ''d+'' @ CHR 0x5C # ''s*AnnexA'' @ CHR 0x5C # ''.1'',
            CHR 0x5C # ''d+.'' @ CHR 0x5C # ''d+.'' @ CHR 0x5C # ''d+'' @ CHR 0x5C # ''s*AnnexA'' @ CHR 0x5C # ''.1'',
            CHR 0x5C # ''d+.'' @ CHR 0x5C # ''d+.'' @ CHR 0x5C # ''d+.'' @ CHR 0x5C # ''d+'' @ CHR 0x5C # ''s*AnnexA'' @ CHR 0x5C # ''.1'']"
    by (simp only: t' d') simp
  with ps g show ?thesis by simp
qed

section \<open>Properties of the Section Segmenter\<close>



















lemma duplicate_titles: "entry_title duplicate_toc 0 = ''Intro''" "entry_title duplicate_toc (Suc 0) = ''Intro''"
  by (simp_all add: entry_title_def duplicate_toc_def trailing_number_match_def numbering_chain_def
      numbering_prefix_def newline_def ascii_digit_def startswith_def upt_rec)

lemma duplicate_pages:
  "entry_pages two_page_document duplicate_toc 0 = [0]"
  "entry_pages two_page_document duplicate_toc (Suc 0) = [0, 1]"
  by (simp_all add: entry_pages_def two_page_document_def duplicate_toc_def upto.simps)

lemma two_page_cleaned:
  "get_text two_page_document 0 = Inr ''nothing here''"
  "get_text two_page_document 1 = Inr ''Intro body''"
  "clean_text no_match_delete empty_config ''nothing here'' = Inr ''nothing here''"
  "clean_text no_match_delete empty_config ''Intro body'' = Inr ''Intro body''"
  "clean_text no_match_delete empty_config (''Intro body'' @ [newline]) = Inr ''Intro body''"
  "clean_text no_match_delete empty_config [] = Inr []"
  by (simp_all add: two_page_document_def two_page_text_def clean_text_def empty_config_def
      strip_def strip_chars_def py_isspace_def newline_def)

lemma two_page_finds:
  "find_title ''nothing here'' ''Intro'' = None"
  "find_title ''Intro body'' ''Intro'' = Some 0"
  by (simp_all add: find_title_def startswith_def upt_rec)

lemma duplicate_entries:
  "section_entry no_match_delete empty_config two_page_document duplicate_toc 0 = Inr (''Intro'', [])"
  "section_entry no_match_delete empty_config two_page_document duplicate_toc (Suc 0)
     = Inr (''Intro'', ''Intro body'')"
proof -
  have n: "length duplicate_toc = 2" by (simp add: duplicate_toc_def)
  have nt: "toc_title (duplicate_toc ! Suc 0) = ''Intro''" by (simp add: duplicate_toc_def)
  have tr: "texts_to_remove empty_config = []" by (simp add: empty_config_def)
  have s0: "scan_pages no_match_delete empty_config two_page_document ''Intro'' (Some ''Intro'')
      [0] [] False = Inr []"
    by (simp add: two_page_cleaned two_page_finds)
  have s1: "scan_pages no_match_delete empty_config two_page_document ''Intro'' None
      [0, 1] [] False = Inr (''Intro body'' @ [newline])"
    by (simp add: two_page_cleaned two_page_finds)
  show "section_entry no_match_delete empty_config two_page_document duplicate_toc 0 = Inr (''Intro'', [])"
    unfolding section_entry_def Let_def duplicate_titles duplicate_pages
    by (simp add: n nt s0 tr two_page_cleaned del: scan_pages.simps)
  note cleaned = two_page_cleaned(5) [unfolded append_Cons append_Nil]
  show "section_entry no_match_delete empty_config two_page_document duplicate_toc (Suc 0)
     = Inr (''Intro'', ''Intro body'')"
    unfolding section_entry_def Let_def duplicate_titles duplicate_pages
    by (simp add: n s1 tr cleaned del: scan_pages.simps)
qed

text \<open>
  A later entry of the same title overwrites the empty body: with the title \<open>Intro\<close> twice in
  the TOC, absent from the page range of the first entry and present in that of the second,
  the mapping holds the body found by the second entry.
\<close>

lemma duplicate_title_overwrites:
  "structure_raw_text_by_toc_no_numbering no_match_delete empty_config two_page_document
     duplicate_toc = Inr [(''Intro'', ''Intro body'')]"
proof -
  have n: "[0 ..< length duplicate_toc] = [0, Suc 0]" by (simp add: duplicate_toc_def upt_rec)
  show ?thesis
    by (simp add: structure_raw_text_by_toc_no_numbering_def n duplicate_entries)
qed

section \<open>Properties of the Pipeline Orchestrator\<close>

lemma attempt_Inl: "f x = Inl e \<Longrightarrow> attempt f x = (Inl e, x)"
  by (simp add: attempt_def)

lemma steps_keep_empty:
  "step3 env [] = []" "step4 env [] = []" "step5 env [] = []" "step6 env [] = []"
  "step7 env [] = []"
  by (simp_all add: step3_def step4_def step5_def step6_def step7_def split: option.splits)

lemma refinement_unchanged:
  assumes "\<forall>s. \<exists>e. extract_sections env s = Inl e"
    and "\<forall>s. \<exists>e. process_titles env s = Inl e"
    and "\<forall>s. \<exists>e. normalize_keys env s = Inl e"
    and "\<forall>s. \<exists>e. process_titles_in_one_step env s = Inl e"
  shows "step6 env (step5 env (step4 env (step3 env s))) = s"
proof -
  have a: "snd (attempt (extract_sections env) x) = x" for x
    using assms(1) [rule_format, of x] by (auto simp: attempt_def)
  have b: "attempt (process_titles env) x = (fst (attempt (process_titles env) x), x)
      \<and> (\<exists>e. fst (attempt (process_titles env) x) = Inl e)" for x
    using assms(2) [rule_format, of x] by (auto simp: attempt_def)
  have c: "attempt (normalize_keys env) x = (fst (attempt (normalize_keys env) x), x)
      \<and> (\<exists>e. fst (attempt (normalize_keys env) x) = Inl e)" for x
    using assms(3) [rule_format, of x] by (auto simp: attempt_def)
  have d: "snd (attempt (process_titles_in_one_step env) x) = x" for x
    using assms(4) [rule_format, of x] by (auto simp: attempt_def)
  have s3: "step3 env x = x" for x by (simp add: step3_def a)
  have s4: "step4 env x = x" for x
    using b [of x] by (auto simp: step4_def split: option.splits prod.splits sum.splits)
  have s5: "step5 env x = x" for x
    using c [of x] by (auto simp: step5_def split: prod.splits sum.splits)
  have s6: "step6 env x = x" for x by (simp add: step6_def d split: option.splits)
  show ?thesis by (simp add: s3 s4 s5 s6)
qed

text \<open>
  C1. Whatever the stages do, \<open>extract_all\<close> returns (it raises nothing) the record of
  exactly four fields in the order metadata, leveled_text, processed_text, cleaned_text.
  A field degrades with its stage: when the metadata cannot be read every field is empty;
  when the whole-document text fails \<open>cleaned_text\<close> is empty; when the segmenter gives
  nothing, \<open>processed_text\<close> and \<open>leveled_text\<close> are empty; when the grouping stage raises,
  \<open>leveled_text\<close> is empty; when the refining stages raise, \<open>processed_text\<close> is the
  segmenter's output unchanged. When the metadata and the text are read they are returned.
\<close>

theorem extract_all_always_returns:
  "\<exists>m l p c.
     extract_all env = Inr [(''metadata'', Mapping m), (''leveled_text'', Tree l),
                            (''processed_text'', Mapping p), (''cleaned_text'', Text c)]
     \<and> ((\<exists>e. extract_metadata env = Inl e) \<longrightarrow> m = [] \<and> l = [] \<and> p = [] \<and> c = [])
     \<and> ((\<exists>e. extract_pdf_text_and_clean env = Inl e) \<longrightarrow> c = [])
     \<and> (step2 env = [] \<longrightarrow> p = [] \<and> l = [])
     \<and> ((\<exists>e. organize_by_levels env
                 (step6 env (step5 env (step4 env (step3 env (step2 env))))) = Inl e)
          \<longrightarrow> l = [])
     \<and> ((\<forall>s. \<exists>e. extract_sections env s = Inl e) \<and> (\<forall>s. \<exists>e. process_titles env s = Inl e)
          \<and> (\<forall>s. \<exists>e. normalize_keys env s = Inl e)
          \<and> (\<forall>s. \<exists>e. process_titles_in_one_step env s = Inl e)
          \<and> (\<exists>md. extract_metadata env = Inr md)
          \<longrightarrow> p = step2 env)
     \<and> (\<forall>md. extract_metadata env = Inr md \<longrightarrow> m = md)
     \<and> (\<forall>md t. extract_metadata env = Inr md \<and> extract_pdf_text_and_clean env = Inr t
          \<longrightarrow> c = t)"
proof -
  let ?s = "step6 env (step5 env (step4 env (step3 env (step2 env))))"
  let ?d = "populate env ?s (step7 env ?s)"
  have run: "extract_all env = Inr (ordered_data ?d)"
    by (simp add: extract_all_def pipeline_body_def Let_def)
  have shape: "ordered_data ?d = [(''metadata'', Mapping (data_metadata ?d)),
      (''leveled_text'', Tree (data_leveled_text ?d)),
      (''processed_text'', Mapping (data_processed_text ?d)),
      (''cleaned_text'', Text (data_cleaned_text ?d))]"
    by (simp add: ordered_data_def)
  have meta: "data_metadata ?d = [] \<and> data_leveled_text ?d = [] \<and> data_processed_text ?d = []
      \<and> data_cleaned_text ?d = []" if "\<exists>e. extract_metadata env = Inl e"
    using that by (auto simp: populate_def)
  have clean: "data_cleaned_text ?d = []" if "\<exists>e. extract_pdf_text_and_clean env = Inl e"
    using that by (auto simp: populate_def Let_def split: sum.splits)
  have seg: "data_processed_text ?d = [] \<and> data_leveled_text ?d = []" if "step2 env = []"
    using that by (simp add: steps_keep_empty populate_def Let_def split: sum.splits)
  have org: "data_leveled_text ?d = []" if "\<exists>e. organize_by_levels env ?s = Inl e"
  proof -
    from that have "step7 env ?s = []" by (auto simp: step7_def)
    then show ?thesis by (simp add: populate_def Let_def split: sum.splits)
  qed
  have keep: "data_processed_text ?d = step2 env"
    if "(\<forall>s. \<exists>e. extract_sections env s = Inl e) \<and> (\<forall>s. \<exists>e. process_titles env s = Inl e)
          \<and> (\<forall>s. \<exists>e. normalize_keys env s = Inl e)
          \<and> (\<forall>s. \<exists>e. process_titles_in_one_step env s = Inl e)
          \<and> (\<exists>md. extract_metadata env = Inr md)"
  proof -
    from that have "?s = step2 env" by (intro refinement_unchanged) blast+
    moreover from that obtain md where "extract_metadata env = Inr md" by blast
    ultimately show ?thesis by (simp add: populate_def Let_def split: sum.splits)
  qed
  have md: "data_metadata ?d = md" if "extract_metadata env = Inr md" for md
    using that by (simp add: populate_def Let_def split: sum.splits)
  have tx: "data_cleaned_text ?d = t"
    if "extract_metadata env = Inr md \<and> extract_pdf_text_and_clean env = Inr t" for md t
    using that by (simp add: populate_def Let_def)
  show ?thesis
    apply (rule exI [of _ "data_metadata ?d"])
    apply (rule exI [of _ "data_leveled_text ?d"])
    apply (rule exI [of _ "data_processed_text ?d"])
    apply (rule exI [of _ "data_cleaned_text ?d"])
    apply (intro conjI impI allI)
    subgoal by (simp only: run shape)
    subgoal using meta by blast
    subgoal using meta by blast
    subgoal using meta by blast
    subgoal using meta by blast
    subgoal using clean by blast
    subgoal using seg by blast
    subgoal using seg by blast
    subgoal using org by blast
    subgoal using keep by blast
    subgoal using md by blast
    subgoal using tx by blast
    done
qed

lemma failing_fields:
  "extract_metadata failing_stages = Inl SourceError"
  "extract_pdf_text_and_clean failing_stages = Inl SourceError"
  by (simp_all add: failing_stages_def)

lemma degraded_fields:
  "extract_metadata degraded_stages = Inr [(''title'', ''Report'')]"
  "extract_pdf_text_and_clean degraded_stages = Inr ''Scope of the report''"
  "extract_sections degraded_stages s = Inl RuntimeError"
  "process_titles degraded_stages s = Inl RuntimeError"
  "normalize_keys degraded_stages s = Inl RuntimeError"
  "process_titles_in_one_step degraded_stages s = Inl RuntimeError"
  "organize_by_levels degraded_stages s = Inl RuntimeError"
  "step2 degraded_stages = [(''Scope'', ''Scope of the report'')]"
  by (simp_all add: degraded_stages_def failing_stages_def raising_def step2_def)

theorem extract_all_always_returns_witness:
  "extract_all failing_stages
     = Inr [(''metadata'', Mapping []), (''leveled_text'', Tree []),
            (''processed_text'', Mapping []), (''cleaned_text'', Text [])]
   \<and> extract_all degraded_stages
     = Inr [(''metadata'', Mapping [(''title'', ''Report'')]), (''leveled_text'', Tree []),
            (''processed_text'', Mapping [(''Scope'', ''Scope of the report'')]),
            (''cleaned_text'', Text ''Scope of the report'')]"
proof -
  have a: "extract_all failing_stages
     = Inr [(''metadata'', Mapping []), (''leveled_text'', Tree []),
            (''processed_text'', Mapping []), (''cleaned_text'', Text [])]"
    using extract_all_always_returns [of failing_stages] by (auto simp: failing_fields)
  have b: "extract_all degraded_stages
     = Inr [(''metadata'', Mapping [(''title'', ''Report'')]), (''leveled_text'', Tree []),
            (''processed_text'', Mapping [(''Scope'', ''Scope of the report'')]),
            (''cleaned_text'', Text ''Scope of the report'')]"
    using extract_all_always_returns [of degraded_stages] by (auto simp: degraded_fields)
  from a b show ?thesis by simp
qed

section \<open>The numbering recovery search on a page with two numbered copies of a title\<close>

text \<open>
  C3. The search order is numbering pattern, then title variation, then page, then offset,
  and a hit leaves the page loop and the variation loop. The loop over the numbering
  patterns has no \<open>break\<close>: after a hit, each later pattern is still tried with the first
  variation, and a second hit rewrites the title again. For the title \<open>Intro\<close> and the page
  text \<open>1Intro 2.Intro\<close> the first hit (pattern \<open>\d+\<close>) gives \<open>1Intro\<close>, the second pattern
  \<open>\d+\.\<close> hits at offset 7, and the entry ends as \<open>2.Intro\<close>, while the text filed under
  the title stays under \<open>1Intro\<close>.
\<close>

theorem search_goes_on_after_first_hit:
  "generate_title_variations ''Intro''
     = Inr [''Intro'',
            bslash # ''d+'' @ bslash # ''s*Intro'',
            bslash # ''d+.'' @ bslash # ''d+'' @ bslash # ''s*Intro'',
            bslash # ''d+.'' @ bslash # ''d+.'' @ bslash # ''d+'' @ bslash # ''s*Intro'',
            bslash # ''d+.'' @ bslash # ''d+.'' @ bslash # ''d+.'' @ bslash # ''d+''
              @ bslash # ''s*Intro'']
   \<and> variant_loop two_hits_extractor ''Intro'' (numbering_patterns ! 0) [0] [''Intro'']
         \<lparr>entry_title_now = ''Intro'', processed_now = [(''Intro'', ''body'')],
          found_match = False\<rparr>
       = Inr \<lparr>entry_title_now = ''1Intro'', processed_now = [(''1Intro'', ''body'')],
              found_match = True\<rparr>
   \<and> variant_loop two_hits_extractor ''Intro'' (numbering_patterns ! 1) [0] [''Intro'']
         \<lparr>entry_title_now = ''1Intro'', processed_now = [(''1Intro'', ''body'')],
          found_match = True\<rparr>
       = Inr \<lparr>entry_title_now = ''2.Intro'', processed_now = [(''1Intro'', ''body'')],
              found_match = True\<rparr>
   \<and> search_and_replace_numbered_titles two_hits_extractor intro_toc [(''Intro'', ''body'')]
       = Inr ([\<lparr>toc_level = 1, toc_title = ''2.Intro'', toc_page = 1\<rparr>],
              [(''1Intro'', ''body'')])"
  by code_simp

end
